theory Spec2Isabelle
  imports Main
begin

section \<open>The data model of package queueimpl3\<close>

text \<open>
  The queue of \<^verbatim>\<open>queueimpl3.go\<close> is a singly linked list of nodes, each holding a
  slice of at most \<^verbatim>\<open>internalSliceSize\<close> values. Nodes are shared between the
  \<^verbatim>\<open>head\<close> and \<^verbatim>\<open>tail\<close> pointers, so the model keeps an explicit store of nodes:
  an address is an index into the store, a pointer is an optional address
  (\<open>None\<close> is Go's \<^verbatim>\<open>nil\<close>), and \<^verbatim>\<open>newNode\<close> allocates at the end of the store.
  Nodes are never removed from the store: garbage collection cannot be observed.

  A value of type \<^verbatim>\<open>interface{}\<close> is an optional value, \<open>None\<close> being the nil
  interface.

  Go's \<^verbatim>\<open>int\<close> has a fixed width (32 or 64 bits) and its arithmetic wraps around.
  \<^verbatim>\<open>pos\<close> is incremented only below 127, so it never wraps. \<^verbatim>\<open>len\<close> is incremented by
  every \<^verbatim>\<open>Push\<close>; once the head is nil the nodes left behind the tail are garbage, so
  \<^verbatim>\<open>len\<close> can be counted up to the wrap point with bounded memory. The model has the code
  twice. \<open>Push\<close> and \<open>Pop\<close> compute \<^verbatim>\<open>len\<close> on the integers; they agree with the code
  while \<^verbatim>\<open>len\<close> stays within the range of \<^verbatim>\<open>int\<close>, as it does when every counted value
  is stored in the queue. \<open>Push_w\<close> and \<open>Pop_w\<close> are the same code with \<^verbatim>\<open>len\<close> computed in
  two's complement of width \<open>w\<close>; the statements about the value of \<^verbatim>\<open>len\<close> are made on
  them, and lemma \<open>run_w_eq\<close> says where the two agree.
\<close>

definition internalSliceSize :: nat where
  "internalSliceSize = 128"

definition internalSliceLastPosition :: int where
  "internalSliceLastPosition = 127"

type_synonym addr = nat

type_synonym 'a iface = "'a option"

record 'a Node =
  Node_v :: "'a iface list"
  Node_n :: "addr option"

text \<open>
  The fields of \<^verbatim>\<open>Queueimpl3\<close>, together with the store of the nodes that its
  pointers refer to.
\<close>

record 'a Queueimpl3 =
  heap :: "'a Node list"
  head :: "addr option"
  tail :: "addr option"
  pos :: int
  len :: int

text \<open>The run-time panics of Go that the code can raise.\<close>

datatype fault = NilDereference | IndexOutOfRange

text \<open>
  Following a pointer: a nil pointer panics. An address outside the store is no node
  either; it does not arise from \<^verbatim>\<open>New\<close>, and is the same invalid-address panic.
\<close>

definition load :: "'a Node list \<Rightarrow> addr option \<Rightarrow> fault + (addr \<times> 'a Node)" where
  "load mem p =
     (case p of
        None \<Rightarrow> Inl NilDereference
      | Some a \<Rightarrow> if a < length mem then Inr (a, mem ! a) else Inl NilDereference)"

section \<open>The operations\<close>

text \<open>\<^verbatim>\<open>newNode\<close>: an empty slice (of capacity 128) and a nil next pointer.\<close>

definition newNode :: "'a Node" where
  "newNode = \<lparr>Node_v = [], Node_n = None\<rparr>"

text \<open>\<^verbatim>\<open>Init\<close> allocates one node and points head and tail at it.\<close>

definition Init :: "'a Queueimpl3 \<Rightarrow> 'a Queueimpl3" where
  "Init s =
     (let a = length (heap s)
      in s\<lparr>heap := heap s @ [newNode], head := Some a, tail := Some a, pos := 0, len := 0\<rparr>)"

text \<open>\<^verbatim>\<open>New\<close> is \<^verbatim>\<open>new(Queueimpl3).Init()\<close>: the zero struct, initialised.\<close>

definition zero :: "'a Queueimpl3" where
  "zero = \<lparr>heap = [], head = None, tail = None, pos = 0, len = 0\<rparr>"

definition New :: "'a Queueimpl3" where
  "New = Init zero"

definition Len :: "'a Queueimpl3 \<Rightarrow> int" where
  "Len s = len s"

text \<open>
  \<^verbatim>\<open>Front\<close> reads \<^verbatim>\<open>q.head.v[q.pos]\<close> unless \<^verbatim>\<open>q.len == 0\<close>. It writes nothing,
  so it returns no state.
\<close>

definition Front :: "'a Queueimpl3 \<Rightarrow> fault + ('a iface \<times> bool)" where
  "Front s =
     (if len s = 0 then Inr (None, False)
      else
        (case load (heap s) (head s) of
           Inl e \<Rightarrow> Inl e
         | Inr (h, hn) \<Rightarrow>
             if pos s < 0 \<or> int (length (Node_v hn)) \<le> pos s then Inl IndexOutOfRange
             else Inr (Node_v hn ! nat (pos s), True)))"

text \<open>
  \<^verbatim>\<open>Push\<close>: when the tail slice is full, a new node is linked behind the tail and
  becomes the tail; then the value is appended to the tail slice and \<^verbatim>\<open>len\<close> grows.
  Here and in \<open>Pop\<close>, \<^verbatim>\<open>q.len++\<close> and \<^verbatim>\<open>q.len--\<close> are the integer successor and
  predecessor; \<open>Push_w\<close> and \<open>Pop_w\<close> below have the wrap-around of Go's \<^verbatim>\<open>int\<close>.
\<close>

definition Push :: "'a iface \<Rightarrow> 'a Queueimpl3 \<Rightarrow> fault + 'a Queueimpl3" where
  "Push x s =
     (case load (heap s) (tail s) of
        Inl e \<Rightarrow> Inl e
      | Inr (t, tn) \<Rightarrow>
          let s1 =
            (if internalSliceSize \<le> length (Node_v tn) then
               (let a = length (heap s)
                in s\<lparr>heap := (heap s)[t := tn\<lparr>Node_n := Some a\<rparr>] @ [newNode],
                     tail := Some a\<rparr>)
             else s)
          in
            (case load (heap s1) (tail s1) of
               Inl e \<Rightarrow> Inl e
             | Inr (t1, tn1) \<Rightarrow>
                 Inr (s1\<lparr>heap := (heap s1)[t1 := tn1\<lparr>Node_v := Node_v tn1 @ [x]\<rparr>],
                         len := len s1 + 1\<rparr>)))"

text \<open>
  \<^verbatim>\<open>Pop\<close>: unless \<^verbatim>\<open>q.len == 0\<close>, read the slot at \<^verbatim>\<open>pos\<close> of the head node, set
  the slot to nil, decrement \<^verbatim>\<open>len\<close>; at the last position, unlink the head node and
  move the head to its successor, else advance \<^verbatim>\<open>pos\<close>.
\<close>

definition Pop :: "'a Queueimpl3 \<Rightarrow> fault + (('a iface \<times> bool) \<times> 'a Queueimpl3)" where
  "Pop s =
     (if len s = 0 then Inr ((None, False), s)
      else
        (case load (heap s) (head s) of
           Inl e \<Rightarrow> Inl e
         | Inr (h, hn) \<Rightarrow>
             if pos s < 0 \<or> int (length (Node_v hn)) \<le> pos s then Inl IndexOutOfRange
             else
               let x = Node_v hn ! nat (pos s);
                   hn1 = hn\<lparr>Node_v := (Node_v hn)[nat (pos s) := None]\<rparr>;
                   s1 = s\<lparr>heap := (heap s)[h := hn1], len := len s - 1\<rparr>
               in
                 if internalSliceLastPosition \<le> pos s1 then
                   Inr ((x, True),
                        s1\<lparr>heap := (heap s1)[h := hn1\<lparr>Node_n := None\<rparr>],
                           head := Node_n hn1, pos := 0\<rparr>)
                 else Inr ((x, True), s1\<lparr>pos := pos s1 + 1\<rparr>)))"

section \<open>Sequences of calls\<close>

datatype 'a call = CInit | CLen | CFront | CPush "'a iface" | CPop

datatype 'a ret = RInit | RLen int | RFront "'a iface" bool | RPush | RPop "'a iface" bool

fun step :: "'a call \<Rightarrow> 'a Queueimpl3 \<Rightarrow> fault + ('a ret \<times> 'a Queueimpl3)" where
  "step CInit s = Inr (RInit, Init s)"
| "step CLen s = Inr (RLen (Len s), s)"
| "step CFront s =
     (case Front s of Inl e \<Rightarrow> Inl e | Inr (x, ok) \<Rightarrow> Inr (RFront x ok, s))"
| "step (CPush x) s =
     (case Push x s of Inl e \<Rightarrow> Inl e | Inr s1 \<Rightarrow> Inr (RPush, s1))"
| "step CPop s =
     (case Pop s of Inl e \<Rightarrow> Inl e | Inr ((x, ok), s1) \<Rightarrow> Inr (RPop x ok, s1))"

text \<open>A panic ends the run: the calls after it are not made.\<close>

fun run :: "'a call list \<Rightarrow> 'a Queueimpl3 \<Rightarrow> fault + ('a ret list \<times> 'a Queueimpl3)" where
  "run [] s = Inr ([], s)"
| "run (c # cs) s =
     (case step c s of
        Inl e \<Rightarrow> Inl e
      | Inr (r, s1) \<Rightarrow>
          (case run cs s1 of Inl e \<Rightarrow> Inl e | Inr (rs, s2) \<Rightarrow> Inr (r # rs, s2)))"

fun is_push :: "'a call \<Rightarrow> bool" where
  "is_push (CPush x) = True"
| "is_push c = False"

fun is_popped :: "'a ret \<Rightarrow> bool" where
  "is_popped (RPop x ok) = ok"
| "is_popped r = False"

section \<open>Go's int of a fixed width\<close>

text \<open>
  The largest \<^verbatim>\<open>int\<close> of width \<open>w\<close>, and the value that two's complement arithmetic of
  width \<open>w\<close> gives for an integer result.
\<close>

definition maxInt :: "nat \<Rightarrow> int" where
  "maxInt w = 2 ^ (w - 1) - 1"

definition wrap :: "nat \<Rightarrow> int \<Rightarrow> int" where
  "wrap w x = (x + 2 ^ (w - 1)) mod 2 ^ w - 2 ^ (w - 1)"

text \<open>
  \<^verbatim>\<open>Push\<close> and \<^verbatim>\<open>Pop\<close> again, line by line, with \<^verbatim>\<open>q.len++\<close> and \<^verbatim>\<open>q.len--\<close> computed
  at width \<open>w\<close>. \<^verbatim>\<open>q.pos++\<close> runs only when \<^verbatim>\<open>q.pos\<close> is below 127 and does not wrap.
\<close>

definition Push_w :: "nat \<Rightarrow> 'a iface \<Rightarrow> 'a Queueimpl3 \<Rightarrow> fault + 'a Queueimpl3" where
  "Push_w w x s =
     (case load (heap s) (tail s) of
        Inl e \<Rightarrow> Inl e
      | Inr (t, tn) \<Rightarrow>
          let s1 =
            (if internalSliceSize \<le> length (Node_v tn) then
               (let a = length (heap s)
                in s\<lparr>heap := (heap s)[t := tn\<lparr>Node_n := Some a\<rparr>] @ [newNode],
                     tail := Some a\<rparr>)
             else s)
          in
            (case load (heap s1) (tail s1) of
               Inl e \<Rightarrow> Inl e
             | Inr (t1, tn1) \<Rightarrow>
                 Inr (s1\<lparr>heap := (heap s1)[t1 := tn1\<lparr>Node_v := Node_v tn1 @ [x]\<rparr>],
                         len := wrap w (len s1 + 1)\<rparr>)))"

definition Pop_w :: "nat \<Rightarrow> 'a Queueimpl3 \<Rightarrow> fault + (('a iface \<times> bool) \<times> 'a Queueimpl3)" where
  "Pop_w w s =
     (if len s = 0 then Inr ((None, False), s)
      else
        (case load (heap s) (head s) of
           Inl e \<Rightarrow> Inl e
         | Inr (h, hn) \<Rightarrow>
             if pos s < 0 \<or> int (length (Node_v hn)) \<le> pos s then Inl IndexOutOfRange
             else
               let x = Node_v hn ! nat (pos s);
                   hn1 = hn\<lparr>Node_v := (Node_v hn)[nat (pos s) := None]\<rparr>;
                   s1 = s\<lparr>heap := (heap s)[h := hn1], len := wrap w (len s - 1)\<rparr>
               in
                 if internalSliceLastPosition \<le> pos s1 then
                   Inr ((x, True),
                        s1\<lparr>heap := (heap s1)[h := hn1\<lparr>Node_n := None\<rparr>],
                           head := Node_n hn1, pos := 0\<rparr>)
                 else Inr ((x, True), s1\<lparr>pos := pos s1 + 1\<rparr>)))"

fun step_w :: "nat \<Rightarrow> 'a call \<Rightarrow> 'a Queueimpl3 \<Rightarrow> fault + ('a ret \<times> 'a Queueimpl3)" where
  "step_w w CInit s = Inr (RInit, Init s)"
| "step_w w CLen s = Inr (RLen (Len s), s)"
| "step_w w CFront s =
     (case Front s of Inl e \<Rightarrow> Inl e | Inr (x, ok) \<Rightarrow> Inr (RFront x ok, s))"
| "step_w w (CPush x) s =
     (case Push_w w x s of Inl e \<Rightarrow> Inl e | Inr s1 \<Rightarrow> Inr (RPush, s1))"
| "step_w w CPop s =
     (case Pop_w w s of Inl e \<Rightarrow> Inl e | Inr ((x, ok), s1) \<Rightarrow> Inr (RPop x ok, s1))"

fun run_w :: "nat \<Rightarrow> 'a call list \<Rightarrow> 'a Queueimpl3 \<Rightarrow> fault + ('a ret list \<times> 'a Queueimpl3)" where
  "run_w w [] s = Inr ([], s)"
| "run_w w (c # cs) s =
     (case step_w w c s of
        Inl e \<Rightarrow> Inl e
      | Inr (r, s1) \<Rightarrow>
          (case run_w w cs s1 of Inl e \<Rightarrow> Inl e | Inr (rs, s2) \<Rightarrow> Inr (r # rs, s2)))"

text \<open>What \<^verbatim>\<open>Len\<close> returns after a run from \<^verbatim>\<open>New\<close>, when the run completes.\<close>

definition Len_after :: "nat \<Rightarrow> 'a call list \<Rightarrow> int option" where
  "Len_after w cs = (case run_w w cs New of Inl e \<Rightarrow> None | Inr (rs, s) \<Rightarrow> Some (Len s))"

section \<open>Invariants\<close>

text \<open>
  Properties of the store and of the queue fields that every call preserves: slices hold at
  most 128 values, next pointers and the tail pointer refer to allocated nodes, and the
  slots of the head node below \<^verbatim>\<open>pos\<close> are nil.
\<close>

definition sizes_ok :: "'a Node list \<Rightarrow> bool" where
  "sizes_ok mem \<longleftrightarrow> (\<forall>nd \<in> set mem. length (Node_v nd) \<le> 128)"

definition links_ok :: "nat \<Rightarrow> 'a Node list \<Rightarrow> bool" where
  "links_ok k mem \<longleftrightarrow> (\<forall>nd \<in> set mem. \<forall>b. Node_n nd = Some b \<longrightarrow> b < k)"

definition head_ok :: "'a Queueimpl3 \<Rightarrow> bool" where
  "head_ok s \<longleftrightarrow>
     (\<forall>h. head s = Some h \<longrightarrow>
        h < length (heap s) \<and> nat (pos s) \<le> length (Node_v (heap s ! h)) \<and>
        (\<forall>i < nat (pos s). Node_v (heap s ! h) ! i = None))"

definition wf :: "'a Queueimpl3 \<Rightarrow> bool" where
  "wf s \<longleftrightarrow>
     (\<exists>t. tail s = Some t \<and> t < length (heap s)) \<and>
     sizes_ok (heap s) \<and> links_ok (length (heap s)) (heap s) \<and> head_ok s \<and>
     0 \<le> pos s \<and> pos s < 128 \<and> 0 \<le> len s"

text \<open>The same without the condition on \<^verbatim>\<open>len\<close>, for the fixed-width operations.\<close>

definition sok :: "'a Queueimpl3 \<Rightarrow> bool" where
  "sok s \<longleftrightarrow>
     (\<exists>t. tail s = Some t \<and> t < length (heap s)) \<and>
     sizes_ok (heap s) \<and> links_ok (length (heap s)) (heap s) \<and> head_ok s \<and>
     0 \<le> pos s \<and> pos s < 128"

text \<open>
  The abstraction of a queue whose head is not nil. The nodes from head to tail were
  allocated one after the other by \<^verbatim>\<open>Push\<close>, the tail being the node allocated last, so
  in this store they have consecutive addresses; each but the tail is full and points to the
  next, and a tail other than the head holds a value. The values from \<^verbatim>\<open>pos\<close> on, read
  through the chain, are the stored sequence. A queue is drained when its last \<^verbatim>\<open>Pop\<close> has
  moved the head to the nil successor of the tail.
\<close>

definition chain :: "'a Node list \<Rightarrow> addr \<Rightarrow> addr \<Rightarrow> bool" where
  "chain mem h t \<longleftrightarrow>
     h \<le> t \<and> Suc t = length mem \<and>
     (\<forall>a. h \<le> a \<and> a < t \<longrightarrow> Node_n (mem ! a) = Some (Suc a) \<and> length (Node_v (mem ! a)) = 128) \<and>
     Node_n (mem ! t) = None \<and> length (Node_v (mem ! t)) \<le> 128 \<and>
     (h < t \<longrightarrow> 0 < length (Node_v (mem ! t)))"

definition contents :: "'a Node list \<Rightarrow> addr \<Rightarrow> addr \<Rightarrow> 'a iface list" where
  "contents mem h t = concat (map (\<lambda>a. Node_v (mem ! a)) [h..<Suc t])"

definition repr :: "'a Queueimpl3 \<Rightarrow> 'a iface list \<Rightarrow> bool" where
  "repr s xs \<longleftrightarrow>
     (\<exists>h t. head s = Some h \<and> tail s = Some t \<and> chain (heap s) h t \<and>
        0 \<le> pos s \<and> pos s < 128 \<and> nat (pos s) \<le> length (Node_v (heap s ! h)) \<and>
        drop (nat (pos s)) (contents (heap s) h t) = xs \<and> len s = int (length xs))"

definition drained :: "'a Queueimpl3 \<Rightarrow> bool" where
  "drained s \<longleftrightarrow> head s = None \<and> len s = 0 \<and> pos s = 0"

section \<open>The single operations\<close>

lemma load_Some: "a < length mem \<Longrightarrow> load mem (Some a) = Inr (a, mem ! a)"
  by (simp add: load_def)

lemma load_InrD: "load mem p = Inr (a, nd) \<Longrightarrow> p = Some a \<and> a < length mem \<and> nd = mem ! a"
  by (auto simp: load_def split: option.splits if_splits)

lemma Push_full:
  assumes "tail s = Some t" "t < length (heap s)" "128 \<le> length (Node_v (heap s ! t))"
  shows "Push x s = Inr (s\<lparr>heap := (heap s)[t := (heap s ! t)\<lparr>Node_n := Some (length (heap s))\<rparr>]
                                   @ [\<lparr>Node_v = [x], Node_n = None\<rparr>],
                          tail := Some (length (heap s)), len := len s + 1\<rparr>)"
  using assms
  by (simp add: Push_def load_def internalSliceSize_def Let_def newNode_def nth_append list_update_append)

lemma Push_room:
  assumes "tail s = Some t" "t < length (heap s)" "length (Node_v (heap s ! t)) < 128"
  shows "Push x s = Inr (s\<lparr>heap := (heap s)[t := (heap s ! t)\<lparr>Node_v := Node_v (heap s ! t) @ [x]\<rparr>],
                          len := len s + 1\<rparr>)"
  using assms
  by (simp add: Push_def load_def internalSliceSize_def Let_def)

lemma Push_InrD: "Push x s = Inr s' \<Longrightarrow> \<exists>t. tail s = Some t \<and> t < length (heap s)"
  by (auto simp: Push_def load_def split: option.splits if_splits sum.splits)

lemma Push_InrE:
  assumes "Push x s = Inr s'"
  obtains (full) t where "tail s = Some t" "t < length (heap s)"
      "128 \<le> length (Node_v (heap s ! t))"
      "s' = s\<lparr>heap := (heap s)[t := (heap s ! t)\<lparr>Node_n := Some (length (heap s))\<rparr>]
                        @ [\<lparr>Node_v = [x], Node_n = None\<rparr>],
               tail := Some (length (heap s)), len := len s + 1\<rparr>"
  | (room) t where "tail s = Some t" "t < length (heap s)"
      "length (Node_v (heap s ! t)) < 128"
      "s' = s\<lparr>heap := (heap s)[t := (heap s ! t)\<lparr>Node_v := Node_v (heap s ! t) @ [x]\<rparr>],
               len := len s + 1\<rparr>"
proof -
  from Push_InrD[OF assms] obtain t where t: "tail s = Some t" "t < length (heap s)" by blast
  show thesis
  proof (cases "128 \<le> length (Node_v (heap s ! t))")
    case True
    from Push_full[OF t True, of x] assms show thesis by (intro full[OF t True]) simp
  next
    case False
    then have lt: "length (Node_v (heap s ! t)) < 128" by simp
    from Push_room[OF t lt, of x] assms show thesis by (intro room[OF t lt]) simp
  qed
qed

lemma Push_pos: "Push x s = Inr s' \<Longrightarrow> pos s' = pos s \<and> head s' = head s \<and> len s' = len s + 1"
  by (auto simp: Push_def Let_def split: sum.splits prod.splits if_splits)

lemma Pop_empty: "len s = 0 \<Longrightarrow> Pop s = Inr ((None, False), s)"
  by (simp add: Pop_def)

lemma Front_empty: "len s = 0 \<Longrightarrow> Front s = Inr (None, False)"
  by (simp add: Front_def)

lemma Pop_last:
  assumes "len s \<noteq> 0" "head s = Some h" "h < length (heap s)"
    "0 \<le> pos s" "nat (pos s) < length (Node_v (heap s ! h))" "127 \<le> pos s"
  shows "Pop s = Inr ((Node_v (heap s ! h) ! nat (pos s), True),
           s\<lparr>heap := (heap s)[h := (heap s ! h)\<lparr>Node_v := (Node_v (heap s ! h))[nat (pos s) := None], Node_n := None\<rparr>],
             head := Node_n (heap s ! h), pos := 0, len := len s - 1\<rparr>)"
proof -
  from assms have "\<not> int (length (Node_v (heap s ! h))) \<le> pos s" by linarith
  with assms show ?thesis
    by (simp add: Pop_def load_def internalSliceLastPosition_def Let_def)
qed

lemma Pop_inner:
  assumes "len s \<noteq> 0" "head s = Some h" "h < length (heap s)"
    "0 \<le> pos s" "nat (pos s) < length (Node_v (heap s ! h))" "pos s < 127"
  shows "Pop s = Inr ((Node_v (heap s ! h) ! nat (pos s), True),
           s\<lparr>heap := (heap s)[h := (heap s ! h)\<lparr>Node_v := (Node_v (heap s ! h))[nat (pos s) := None]\<rparr>],
             pos := pos s + 1, len := len s - 1\<rparr>)"
proof -
  from assms have "\<not> int (length (Node_v (heap s ! h))) \<le> pos s" by linarith
  with assms show ?thesis
    by (simp add: Pop_def load_def internalSliceLastPosition_def Let_def)
qed

lemma Pop_InrD:
  assumes "Pop s = Inr (r, s')" "len s \<noteq> 0"
  shows "\<exists>h. head s = Some h \<and> h < length (heap s) \<and> 0 \<le> pos s \<and>
             nat (pos s) < length (Node_v (heap s ! h))"
  using assms
  by (auto simp: Pop_def load_def split: option.splits if_splits)

lemma Pop_InrE:
  assumes "Pop s = Inr ((x, ok), s')"
  obtains (empty) "len s = 0" "x = None" "\<not> ok" "s' = s"
  | (last) h where "len s \<noteq> 0" "head s = Some h" "h < length (heap s)" "0 \<le> pos s"
      "nat (pos s) < length (Node_v (heap s ! h))" "127 \<le> pos s" "ok"
      "x = Node_v (heap s ! h) ! nat (pos s)"
      "s' = s\<lparr>heap := (heap s)[h := (heap s ! h)\<lparr>Node_v := (Node_v (heap s ! h))[nat (pos s) := None],
                                                 Node_n := None\<rparr>],
               head := Node_n (heap s ! h), pos := 0, len := len s - 1\<rparr>"
  | (inner) h where "len s \<noteq> 0" "head s = Some h" "h < length (heap s)" "0 \<le> pos s"
      "nat (pos s) < length (Node_v (heap s ! h))" "pos s < 127" "ok"
      "x = Node_v (heap s ! h) ! nat (pos s)"
      "s' = s\<lparr>heap := (heap s)[h := (heap s ! h)\<lparr>Node_v := (Node_v (heap s ! h))[nat (pos s) := None]\<rparr>],
               pos := pos s + 1, len := len s - 1\<rparr>"
proof (cases "len s = 0")
  case True
  with assms show thesis by (intro empty) (simp_all add: Pop_empty)
next
  case False
  from Pop_InrD[OF assms False] obtain h where h: "head s = Some h" "h < length (heap s)"
    "0 \<le> pos s" "nat (pos s) < length (Node_v (heap s ! h))" by blast
  show thesis
  proof (cases "127 \<le> pos s")
    case True
    from Pop_last[OF False h True] assms show thesis
      by (intro last[OF False h True]) simp_all
  next
    case F: False
    then have lt: "pos s < 127" by simp
    from Pop_inner[OF False h lt] assms show thesis
      by (intro inner[OF False h lt]) simp_all
  qed
qed

lemma Pop_len: "Pop s = Inr ((x, ok), s') \<Longrightarrow> len s' = len s - (if ok then 1 else 0)"
  by (auto simp: Pop_def Let_def split: sum.splits prod.splits if_splits)

lemma nil_head_faults:
  assumes "head s = None" "len s \<noteq> 0"
  shows "Front s = Inl NilDereference" "Pop s = Inl NilDereference"
  using assms by (simp_all add: Front_def Pop_def load_def)

section \<open>Preservation of the invariants\<close>

lemma sizes_ok_update:
  "sizes_ok mem \<Longrightarrow> length (Node_v nd) \<le> 128 \<Longrightarrow> sizes_ok (mem[a := nd])"
  unfolding sizes_ok_def using set_update_subset_insert[of mem a nd] by auto

lemma sizes_ok_snoc:
  "sizes_ok mem \<Longrightarrow> length (Node_v nd) \<le> 128 \<Longrightarrow> sizes_ok (mem @ [nd])"
  unfolding sizes_ok_def by auto

lemma sizes_ok_nth: "sizes_ok mem \<Longrightarrow> a < length mem \<Longrightarrow> length (Node_v (mem ! a)) \<le> 128"
  unfolding sizes_ok_def by auto

lemma links_ok_update:
  "links_ok k mem \<Longrightarrow> (\<And>b. Node_n nd = Some b \<Longrightarrow> b < k) \<Longrightarrow> links_ok k (mem[a := nd])"
  unfolding links_ok_def using set_update_subset_insert[of mem a nd] by auto

lemma links_ok_snoc:
  "links_ok k mem \<Longrightarrow> (\<And>b. Node_n nd = Some b \<Longrightarrow> b < k) \<Longrightarrow> links_ok k (mem @ [nd])"
  unfolding links_ok_def by auto

lemma links_ok_mono: "links_ok k mem \<Longrightarrow> k \<le> k' \<Longrightarrow> links_ok k' mem"
  unfolding links_ok_def by fastforce

lemma links_ok_nth:
  "links_ok k mem \<Longrightarrow> a < length mem \<Longrightarrow> Node_n (mem ! a) = Some b \<Longrightarrow> b < k"
  unfolding links_ok_def by auto

lemma wf_New: "wf New"
  by (simp add: wf_def sizes_ok_def links_ok_def head_ok_def New_def Init_def zero_def newNode_def Let_def)

lemma wf_Init: "wf s \<Longrightarrow> wf (Init s)"
  unfolding wf_def
  by (auto simp: head_ok_def Init_def newNode_def Let_def
      intro!: sizes_ok_snoc links_ok_snoc intro: links_ok_mono)

lemma wf_Push:
  assumes "wf s" "Push x s = Inr s'"
  shows "wf s'"
proof -
  from assms(1) obtain t where t: "tail s = Some t" "t < length (heap s)"
    by (auto simp: wf_def)
  from assms(1) have sz: "sizes_ok (heap s)" and lk: "links_ok (length (heap s)) (heap s)"
    and hd: "head_ok s" and rg: "0 \<le> pos s" "pos s < 128" "0 \<le> len s"
    by (auto simp: wf_def)
  show ?thesis
  proof (cases "128 \<le> length (Node_v (heap s ! t))")
    case True
    from Push_full[OF t True, of x] assms(2) have s': "s' = s\<lparr>heap := (heap s)[t := (heap s ! t)\<lparr>Node_n := Some (length (heap s))\<rparr>]
                                   @ [\<lparr>Node_v = [x], Node_n = None\<rparr>],
                          tail := Some (length (heap s)), len := len s + 1\<rparr>" by simp
    have 1: "sizes_ok (heap s')" unfolding s'
      using sz t by (auto intro!: sizes_ok_snoc sizes_ok_update dest: sizes_ok_nth)
    have 2: "links_ok (length (heap s')) (heap s')" unfolding s'
      using lk by (auto intro!: links_ok_snoc links_ok_update intro: links_ok_mono)
    have 3: "head_ok s'" using hd t unfolding s' head_ok_def
      by (auto simp: nth_append nth_list_update)
    show ?thesis unfolding wf_def using 1 2 3 rg by (simp add: s')
  next
    case False
    then have lt: "length (Node_v (heap s ! t)) < 128" by simp
    from Push_room[OF t lt, of x] assms(2) have s': "s' = s\<lparr>heap := (heap s)[t := (heap s ! t)\<lparr>Node_v := Node_v (heap s ! t) @ [x]\<rparr>],
                          len := len s + 1\<rparr>" by simp
    have 1: "sizes_ok (heap s')" unfolding s'
      using sz t lt by (auto intro!: sizes_ok_update)
    have 2: "links_ok (length (heap s')) (heap s')" unfolding s'
      using lk t by (auto intro!: links_ok_update dest: links_ok_nth)
    have 3: "head_ok s'" using hd t unfolding s' head_ok_def
      by (auto simp: nth_append nth_list_update)
    show ?thesis unfolding wf_def using 1 2 3 rg t by (simp add: s')
  qed
qed

lemma wf_Pop:
  assumes "wf s" "Pop s = Inr (r, s')"
  shows "wf s'"
proof (cases "len s = 0")
  case True
  with assms show ?thesis by (simp add: Pop_empty)
next
  case False
  from Pop_InrD[OF assms(2) False] obtain h where h: "head s = Some h" "h < length (heap s)"
    "0 \<le> pos s" "nat (pos s) < length (Node_v (heap s ! h))" by blast
  from assms(1) obtain t where t: "tail s = Some t" "t < length (heap s)"
    by (auto simp: wf_def)
  from assms(1) have sz: "sizes_ok (heap s)" and lk: "links_ok (length (heap s)) (heap s)"
    and hd: "head_ok s" and rg: "0 \<le> pos s" "pos s < 128" "0 \<le> len s"
    by (auto simp: wf_def)
  show ?thesis
  proof (cases "127 \<le> pos s")
    case True
    from Pop_last[OF False h True] assms(2) have s': "s' = s\<lparr>heap := (heap s)[h := (heap s ! h)\<lparr>Node_v := (Node_v (heap s ! h))[nat (pos s) := None], Node_n := None\<rparr>],
             head := Node_n (heap s ! h), pos := 0, len := len s - 1\<rparr>" by simp
    have 1: "sizes_ok (heap s')" unfolding s'
      using sz h by (auto intro!: sizes_ok_update dest: sizes_ok_nth)
    have 2: "links_ok (length (heap s')) (heap s')" unfolding s'
      using lk by (auto intro!: links_ok_update)
    have 3: "head_ok s'" using links_ok_nth[OF lk h(2)] unfolding s' head_ok_def
      by auto
    show ?thesis unfolding wf_def using 1 2 3 rg t False by (simp add: s')
  next
    case F2: False
    then have lt: "pos s < 127" by simp
    from Pop_inner[OF False h lt] assms(2) have s': "s' = s\<lparr>heap := (heap s)[h := (heap s ! h)\<lparr>Node_v := (Node_v (heap s ! h))[nat (pos s) := None]\<rparr>],
             pos := pos s + 1, len := len s - 1\<rparr>" by simp
    have n1: "nat (pos s + 1) = Suc (nat (pos s))" using h(3) by simp
    have 1: "sizes_ok (heap s')" unfolding s'
      using sz h by (auto intro!: sizes_ok_update dest: sizes_ok_nth)
    have 2: "links_ok (length (heap s')) (heap s')" unfolding s'
      using lk h by (auto intro!: links_ok_update dest: links_ok_nth)
    have 3: "head_ok s'" using hd h unfolding s' head_ok_def n1
      by (auto simp: nth_list_update less_Suc_eq)
    show ?thesis unfolding wf_def using 1 2 3 rg t False lt by (simp add: s')
  qed
qed

lemma wf_step:
  assumes "wf s" "step c s = Inr (r, s')"
  shows "wf s'"
  using assms
  by (cases c) (auto simp: wf_Init split: sum.splits prod.splits dest: wf_Push wf_Pop)

lemma wf_run:
  assumes "wf s" "run cs s = Inr (rs, s')"
  shows "wf s'"
  using assms
proof (induction cs arbitrary: s rs)
  case Nil
  then show ?case by simp
next
  case (Cons c cs)
  then show ?case
    by (auto split: sum.splits prod.splits dest: wf_step)
qed

lemma step_heap_mono:
  assumes "step c s = Inr (r, s')" "a < length (heap s)"
  shows "a < length (heap s') \<and> length (Node_v (heap s ! a)) \<le> length (Node_v (heap s' ! a))"
proof (cases c)
  case CInit
  with assms show ?thesis by (auto simp: Init_def Let_def nth_append)
next
  case CLen
  with assms show ?thesis by auto
next
  case CFront
  with assms show ?thesis by (auto split: sum.splits prod.splits)
next
  case (CPush x)
  with assms(1) have "Push x s = Inr s'" by (auto split: sum.splits)
  then show ?thesis using assms(2)
    by (cases rule: Push_InrE) (auto simp: nth_append nth_list_update)
next
  case CPop
  with assms(1) obtain x ok where "Pop s = Inr ((x, ok), s')"
    by (auto split: sum.splits prod.splits)
  then show ?thesis using assms(2)
    by (cases rule: Pop_InrE) (auto simp: nth_list_update)
qed

lemma run_heap_mono:
  assumes "run cs s = Inr (rs, s')" "a < length (heap s)"
  shows "a < length (heap s') \<and> length (Node_v (heap s ! a)) \<le> length (Node_v (heap s' ! a))"
  using assms
proof (induction cs arbitrary: s rs)
  case Nil
  then show ?case by simp
next
  case (Cons c cs)
  from Cons.prems(1) obtain r s1 rs1 where
    st: "step c s = Inr (r, s1)" and rn: "run cs s1 = Inr (rs1, s')"
    by (auto split: sum.splits prod.splits)
  from step_heap_mono[OF st Cons.prems(2)] have
    1: "a < length (heap s1)" "length (Node_v (heap s ! a)) \<le> length (Node_v (heap s1 ! a))"
    by simp_all
  from Cons.IH[OF rn 1(1)] 1(2) show ?case by simp
qed

lemma step_len:
  assumes "step c s = Inr (r, s')" "c \<noteq> CInit"
  shows "len s' = len s + (if is_push c then 1 else 0) - (if is_popped r then 1 else 0)"
  using assms
  by (cases c) (auto simp: Push_pos split: sum.splits prod.splits dest: Pop_len)


lemma drained_Push:
  assumes "wf s" "drained s"
  shows "\<exists>s'. Push y s = Inr s' \<and> head s' = None \<and> len s' = 1"
proof -
  from assms(1) obtain t where t: "tail s = Some t" "t < length (heap s)"
    by (auto simp: wf_def)
  from assms(2) have "head s = None" "len s = 0" by (simp_all add: drained_def)
  then show ?thesis
    by (cases "128 \<le> length (Node_v (heap s ! t))")
       (simp_all add: Push_full[OF t] Push_room[OF t])
qed

section \<open>The stored sequence\<close>

lemma contents_cong:
  assumes "\<And>a. h \<le> a \<Longrightarrow> a \<le> t \<Longrightarrow> Node_v (mem' ! a) = Node_v (mem ! a)"
  shows "contents mem' h t = contents mem h t"
  unfolding contents_def using assms by (auto intro!: arg_cong[where f=concat])

lemma contents_single: "contents mem h h = Node_v (mem ! h)"
  by (simp add: contents_def)

lemma contents_head: "h < t \<Longrightarrow> contents mem h t = Node_v (mem ! h) @ contents mem (Suc h) t"
  by (simp add: contents_def upt_conv_Cons)

lemma contents_last: "h \<le> t \<Longrightarrow> contents mem h (Suc t) = contents mem h t @ Node_v (mem ! Suc t)"
  by (simp add: contents_def)

lemma contents_prefix: "h \<le> t \<Longrightarrow> \<exists>r. contents mem h t = Node_v (mem ! h) @ r"
  by (cases "h = t") (auto simp: contents_single contents_head)

lemma contents_suffix: "h \<le> t \<Longrightarrow> \<exists>r. contents mem h t = r @ Node_v (mem ! t)"
  by (simp add: contents_def)

lemma contents_append_tail:
  assumes "h \<le> t" "t < length mem"
  shows "contents (mem[t := (mem ! t)\<lparr>Node_v := Node_v (mem ! t) @ [x]\<rparr>]) h t = contents mem h t @ [x]"
  using assms by (auto simp: contents_def intro!: arg_cong[where f=concat])

lemma sum_list_const: "(\<And>x. x \<in> set xs \<Longrightarrow> f x = (c::nat)) \<Longrightarrow> sum_list (map f xs) = c * length xs"
  by (induction xs) auto

lemma chain_length:
  assumes "chain mem h t"
  shows "length (contents mem h t) = 128 * (t - h) + length (Node_v (mem ! t))"
proof -
  from assms have le: "h \<le> t"
    and full: "\<And>a. a \<in> set [h..<t] \<Longrightarrow> length (Node_v (mem ! a)) = 128"
    by (auto simp: chain_def)
  have "sum_list (map (\<lambda>a. length (Node_v (mem ! a))) [h..<t]) = 128 * length [h..<t]"
    using full by (rule sum_list_const)
  then show ?thesis using le
    by (simp add: contents_def length_concat comp_def)
qed

lemma repr_New: "repr New []"
  by (simp add: repr_def chain_def contents_def New_def Init_def zero_def newNode_def Let_def)

lemma repr_Init: "repr (Init s) []"
  by (auto simp: repr_def chain_def contents_def Init_def newNode_def Let_def)

lemma repr_one_block:
  assumes "repr s vs" "pos s = 0" "length vs = 128"
  shows "\<exists>t. head s = Some t \<and> tail s = Some t \<and> length (Node_v (heap s ! t)) = 128"
proof -
  from assms(1,2) obtain h t where ht: "head s = Some h" "tail s = Some t" "chain (heap s) h t"
    and c: "contents (heap s) h t = vs"
    unfolding repr_def by auto
  from chain_length[OF ht(3)] c assms(3)
  have e: "128 * (t - h) + length (Node_v (heap s ! t)) = 128" by simp
  have "h = t"
  proof (rule ccontr)
    assume "h \<noteq> t"
    with ht(3) have lt: "h < t" and pos: "0 < length (Node_v (heap s ! t))"
      by (auto simp: chain_def)
    from lt have "128 \<le> 128 * (t - h)" by simp
    with e pos show False by linarith
  qed
  with e ht show ?thesis by simp
qed

lemma repr_head_next:
  assumes "repr s xs" "head s = Some h"
  shows "Node_n (heap s ! h) \<noteq> Some h"
proof -
  from assms obtain t where c: "chain (heap s) h t" by (auto simp: repr_def)
  show ?thesis
  proof (cases "h < t")
    case True
    with c have "Node_n (heap s ! h) = Some (Suc h)" by (auto simp: chain_def)
    then show ?thesis by simp
  next
    case False
    with c have "Node_n (heap s ! h) = None" by (auto simp: chain_def)
    then show ?thesis by simp
  qed
qed

lemma repr_Push:
  assumes "repr s xs"
  shows "\<exists>s'. Push x s = Inr s' \<and> repr s' (xs @ [x])"
proof -
  from assms obtain h t where ht: "head s = Some h" "tail s = Some t" "chain (heap s) h t"
    and rg: "0 \<le> pos s" "pos s < 128" "nat (pos s) \<le> length (Node_v (heap s ! h))"
    and xs: "drop (nat (pos s)) (contents (heap s) h t) = xs" and ln: "len s = int (length xs)"
    unfolding repr_def by blast
  from ht(3) have le: "h \<le> t" and tl: "t < length (heap s)" and st: "Suc t = length (heap s)"
    by (auto simp: chain_def)
  from contents_prefix[OF le] obtain r where r: "contents (heap s) h t = Node_v (heap s ! h) @ r"
    by blast
  have dr: "drop (nat (pos s)) (contents (heap s) h t @ [x]) = xs @ [x]"
    using rg(3) xs unfolding r by simp
  show ?thesis
  proof (cases "128 \<le> length (Node_v (heap s ! t))")
    case True
    let ?mem = "(heap s)[t := (heap s ! t)\<lparr>Node_n := Some (length (heap s))\<rparr>] @ [\<lparr>Node_v = [x], Node_n = None\<rparr>]"
    let ?s' = "s\<lparr>heap := ?mem, tail := Some (length (heap s)), len := len s + 1\<rparr>"
    have P: "Push x s = Inr ?s'" by (rule Push_full[OF ht(2) tl True])
    have full: "length (Node_v (heap s ! t)) = 128" using True ht(3) by (auto simp: chain_def)
    have nth_old: "\<And>a. a \<le> t \<Longrightarrow> Node_v (?mem ! a) = Node_v (heap s ! a)"
      using tl by (auto simp: nth_append nth_list_update)
    have nth_lt: "\<And>a. a < t \<Longrightarrow> ?mem ! a = heap s ! a"
      using tl by (auto simp: nth_append nth_list_update)
    have nth_t: "Node_n (?mem ! t) = Some (Suc t)"
      using tl st by (simp add: nth_append)
    have nth_new: "?mem ! Suc t = \<lparr>Node_v = [x], Node_n = None\<rparr>"
      using st by (simp add: nth_append)
    have ch: "chain ?mem h (Suc t)"
      unfolding chain_def
    proof (intro conjI allI impI)
      show "h \<le> Suc t" using le by simp
      show "Suc (Suc t) = length ?mem" using st by simp
      show "Node_n (?mem ! Suc t) = None" by (simp add: nth_new)
      show "length (Node_v (?mem ! Suc t)) \<le> 128" by (simp add: nth_new)
      show "0 < length (Node_v (?mem ! Suc t))" by (simp add: nth_new)
    next
      fix a assume a: "h \<le> a \<and> a < Suc t"
      show "Node_n (?mem ! a) = Some (Suc a)"
      proof (cases "a = t")
        case True then show ?thesis using nth_t by simp
      next
        case False
        with a have "a < t" by simp
        with a ht(3) show ?thesis by (simp add: nth_lt chain_def)
      qed
      show "length (Node_v (?mem ! a)) = 128"
      proof (cases "a = t")
        case True then show ?thesis using nth_old[of t] full by simp
      next
        case False
        with a have "a < t" by simp
        with a ht(3) show ?thesis by (simp add: nth_lt chain_def)
      qed
    qed
    have "contents ?mem h t = contents (heap s) h t"
      by (rule contents_cong) (simp add: nth_old)
    then have ct: "contents ?mem h (Suc t) = contents (heap s) h t @ [x]"
      using le by (simp add: contents_last nth_new)
    have hv: "Node_v (?mem ! h) = Node_v (heap s ! h)" using le by (rule nth_old)
    have "repr ?s' (xs @ [x])"
      unfolding repr_def
    proof (intro exI conjI)
      show "head ?s' = Some h" using ht(1) by simp
      show "tail ?s' = Some (Suc t)" using st by simp
      show "chain (heap ?s') h (Suc t)" using ch by simp
      show "0 \<le> pos ?s'" "pos ?s' < 128" using rg by simp_all
      show "nat (pos ?s') \<le> length (Node_v (heap ?s' ! h))" using rg(3) hv by simp
      show "drop (nat (pos ?s')) (contents (heap ?s') h (Suc t)) = xs @ [x]"
        using dr by (simp add: ct)
      show "len ?s' = int (length (xs @ [x]))" using ln by simp
    qed
    with P show ?thesis by blast
  next
    case False
    then have lt: "length (Node_v (heap s ! t)) < 128" by simp
    let ?mem = "(heap s)[t := (heap s ! t)\<lparr>Node_v := Node_v (heap s ! t) @ [x]\<rparr>]"
    let ?s' = "s\<lparr>heap := ?mem, len := len s + 1\<rparr>"
    have P: "Push x s = Inr ?s'" by (rule Push_room[OF ht(2) tl lt])
    have ch: "chain ?mem h t"
      using ht(3) lt unfolding chain_def by (auto simp: nth_list_update)
    have ct: "contents ?mem h t = contents (heap s) h t @ [x]"
      by (rule contents_append_tail[OF le tl])
    have hv: "nat (pos s) \<le> length (Node_v (?mem ! h))"
      using rg(3) tl by (auto simp: nth_list_update)
    have "repr ?s' (xs @ [x])"
      unfolding repr_def
      apply (rule exI[of _ h], rule exI[of _ t])
      using ht(1,2) ch rg(1,2) ln dr hv by (simp add: ct)
    with P show ?thesis by blast
  qed
qed

lemma repr_Pop:
  assumes "repr s (x # xs)"
  shows "\<exists>s'. Pop s = Inr ((x, True), s') \<and>
              pos s' = (if pos s = 127 then 0 else pos s + 1) \<and>
              (if xs = [] \<and> pos s = 127 then drained s' else repr s' xs)"
proof -
  from assms obtain h t where ht: "head s = Some h" "tail s = Some t" "chain (heap s) h t"
    and rg: "0 \<le> pos s" "pos s < 128" "nat (pos s) \<le> length (Node_v (heap s ! h))"
    and xs: "drop (nat (pos s)) (contents (heap s) h t) = x # xs"
    and ln: "len s = int (length (x # xs))"
    unfolding repr_def by blast
  let ?p = "nat (pos s)"
  let ?v = "Node_v (heap s ! h)"
  from ht(3) have le: "h \<le> t" and tl: "t < length (heap s)" and st: "Suc t = length (heap s)"
    by (auto simp: chain_def)
  have hl: "h < length (heap s)" using le tl by simp
  have ne: "len s \<noteq> 0" using ln by simp
  define rest where "rest = (if h < t then contents (heap s) (Suc h) t else [])"
  have ct: "contents (heap s) h t = ?v @ rest"
    using le by (cases "h = t") (auto simp: rest_def contents_single contents_head)
  have vlen: "length ?v \<le> 128" using ht(3) le by (cases "h = t") (auto simp: chain_def)
  have inb: "?p < length ?v"
  proof (rule ccontr)
    assume "\<not> ?p < length ?v"
    with rg(3) have eq: "?p = length ?v" by simp
    show False
    proof (cases "h < t")
      case True
      with ht(3) have "length ?v = 128" by (auto simp: chain_def)
      with eq rg(2) show False by simp
    next
      case False
      then have "rest = []" by (simp add: rest_def)
      with xs eq show False by (simp add: ct)
    qed
  qed
  have x: "x = ?v ! ?p" and xs': "xs = drop (Suc ?p) ?v @ rest"
    using xs inb by (simp_all add: ct Cons_nth_drop_Suc[symmetric])
  show ?thesis
  proof (cases "127 \<le> pos s")
    case True
    then have p127: "pos s = 127" using rg(2) by simp
    then have full: "length ?v = 128" using inb vlen by simp
    let ?mem = "(heap s)[h := (heap s ! h)\<lparr>Node_v := ?v[?p := None], Node_n := None\<rparr>]"
    let ?s' = "s\<lparr>heap := ?mem, head := Node_n (heap s ! h), pos := 0, len := len s - 1\<rparr>"
    have P: "Pop s = Inr ((x, True), ?s')"
      unfolding x by (rule Pop_last[OF ne ht(1) hl rg(1) inb True])
    have xr: "xs = rest" using xs' full p127 by simp
    show ?thesis
    proof (cases "h < t")
      case True
      then have nx: "Node_n (heap s ! h) = Some (Suc h)" using ht(3) by (auto simp: chain_def)
      have ch: "chain ?mem (Suc h) t"
        using ht(3) True unfolding chain_def by (auto simp: nth_list_update)
      have c2: "contents ?mem (Suc h) t = contents (heap s) (Suc h) t"
        by (rule contents_cong) (simp add: nth_list_update)
      from contents_suffix[of "Suc h" t "heap s"] True obtain r
        where "contents (heap s) (Suc h) t = r @ Node_v (heap s ! t)" by auto
      moreover have "0 < length (Node_v (heap s ! t))" using ht(3) True by (auto simp: chain_def)
      ultimately have nonempty: "xs \<noteq> []" using xr True by (auto simp: rest_def)
      have "repr ?s' xs"
        unfolding repr_def
      proof (intro exI conjI)
        show "head ?s' = Some (Suc h)" using nx by simp
        show "tail ?s' = Some t" using ht(2) by simp
        show "chain (heap ?s') (Suc h) t" using ch by simp
        show "0 \<le> pos ?s'" "pos ?s' < 128" by simp_all
        show "nat (pos ?s') \<le> length (Node_v (heap ?s' ! Suc h))" by simp
        show "drop (nat (pos ?s')) (contents (heap ?s') (Suc h) t) = xs"
          using xr True by (simp add: c2 rest_def)
        show "len ?s' = int (length xs)" using ln by simp
      qed
      with P nonempty p127 show ?thesis by auto
    next
      case False
      then have "h = t" using le by simp
      then have nx: "Node_n (heap s ! h) = None" using ht(3) by (auto simp: chain_def)
      have e: "xs = []" using xr False by (simp add: rest_def)
      have "drained ?s'" using nx ln e by (simp add: drained_def)
      with P e p127 show ?thesis by auto
    qed
  next
    case False
    then have lt: "pos s < 127" by simp
    let ?mem = "(heap s)[h := (heap s ! h)\<lparr>Node_v := ?v[?p := None]\<rparr>]"
    let ?s' = "s\<lparr>heap := ?mem, pos := pos s + 1, len := len s - 1\<rparr>"
    have P: "Pop s = Inr ((x, True), ?s')"
      unfolding x by (rule Pop_inner[OF ne ht(1) hl rg(1) inb lt])
    have n1: "nat (pos s + 1) = Suc ?p" using rg(1) by simp
    have ch: "chain ?mem h t"
      using ht(3) unfolding chain_def by (auto simp: nth_list_update)
    have hv: "Node_v (?mem ! h) = ?v[?p := None]" using hl by simp
    have rest': "(if h < t then contents ?mem (Suc h) t else []) = rest"
      unfolding rest_def
      by (auto intro!: contents_cong simp: nth_list_update)
    have c2: "contents ?mem h t = ?v[?p := None] @ rest"
      using le rest' hv by (cases "h = t") (auto simp: contents_single contents_head)
    have "repr ?s' xs"
      unfolding repr_def
    proof (intro exI conjI)
      show "head ?s' = Some h" using ht(1) by simp
      show "tail ?s' = Some t" using ht(2) by simp
      show "chain (heap ?s') h t" using ch by simp
      show "0 \<le> pos ?s'" "pos ?s' < 128" using rg lt by simp_all
      show "nat (pos ?s') \<le> length (Node_v (heap ?s' ! h))" using inb hl by (simp add: n1)
      show "drop (nat (pos ?s')) (contents (heap ?s') h t) = xs"
        using inb by (simp add: c2 n1 xs')
      show "len ?s' = int (length xs)" using ln by simp
    qed
    with P lt show ?thesis by auto
  qed
qed

lemma shape_step:
  assumes "(\<exists>xs. repr s xs) \<or> head s = None" "step c s = Inr (r, s')"
  shows "(\<exists>xs. repr s' xs) \<or> head s' = None"
proof (cases c)
  case CInit
  with assms(2) show ?thesis using repr_Init by auto
next
  case CLen
  with assms show ?thesis by auto
next
  case CFront
  with assms show ?thesis by (auto split: sum.splits prod.splits)
next
  case (CPush x)
  with assms(2) have p: "Push x s = Inr s'" by (auto split: sum.splits)
  from assms(1) show ?thesis
  proof
    assume "\<exists>xs. repr s xs"
    then obtain xs where "repr s xs" ..
    from repr_Push[OF this, of x] p show ?thesis by auto
  next
    assume "head s = None"
    with Push_pos[OF p] show ?thesis by simp
  qed
next
  case CPop
  with assms(2) obtain x ok where p: "Pop s = Inr ((x, ok), s')"
    by (auto split: sum.splits prod.splits)
  show ?thesis
  proof (cases "len s = 0")
    case True
    with p assms(1) show ?thesis by (simp add: Pop_empty)
  next
    case False
    from assms(1) show ?thesis
    proof
      assume "\<exists>xs. repr s xs"
      then obtain xs where r: "repr s xs" ..
      with False obtain y ys where "xs = y # ys" by (cases xs) (auto simp: repr_def)
      with r have "repr s (y # ys)" by simp
      from repr_Pop[OF this] p show ?thesis by (auto simp: drained_def split: if_splits)
    next
      assume "head s = None"
      with False p show ?thesis by (simp add: nil_head_faults)
    qed
  qed
qed

lemma shape_run:
  assumes "(\<exists>xs. repr s xs) \<or> head s = None" "run cs s = Inr (rs, s')"
  shows "(\<exists>xs. repr s' xs) \<or> head s' = None"
  using assms
proof (induction cs arbitrary: s rs)
  case Nil
  then show ?case by simp
next
  case (Cons c cs)
  from Cons.prems(2) obtain r s1 rs1 where
    st: "step c s = Inr (r, s1)" and rn: "run cs s1 = Inr (rs1, s')"
    by (auto split: sum.splits prod.splits)
  from shape_step[OF Cons.prems(1) st] have "(\<exists>xs. repr s1 xs) \<or> head s1 = None" .
  from Cons.IH[OF this rn] show ?case .
qed

section \<open>Runs of pushes and pops\<close>

lemma run_append:
  "run (cs @ ds) s =
     (case run cs s of
        Inl e \<Rightarrow> Inl e
      | Inr (rs, s1) \<Rightarrow>
          (case run ds s1 of Inl e \<Rightarrow> Inl e | Inr (rs', s2) \<Rightarrow> Inr (rs @ rs', s2)))"
  by (induction cs arbitrary: s) (auto split: sum.splits)

lemma run_pushes:
  assumes "repr s xs"
  shows "\<exists>s'. run (map CPush vs) s = Inr (replicate (length vs) RPush, s') \<and>
              repr s' (xs @ vs) \<and> pos s' = pos s"
  using assms
proof (induction vs arbitrary: s xs)
  case Nil
  then show ?case by simp
next
  case (Cons v vs)
  from repr_Push[OF Cons.prems, of v] obtain s1 where
    s1: "Push v s = Inr s1" "repr s1 (xs @ [v])" by blast
  from Cons.IH[OF s1(2)] obtain s' where
    s': "run (map CPush vs) s1 = Inr (replicate (length vs) RPush, s')"
        "repr s' ((xs @ [v]) @ vs)" "pos s' = pos s1" by blast
  from s1(1) have "pos s1 = pos s" by (simp add: Push_pos)
  with s1 s' show ?case by simp
qed

lemma run_pops:
  assumes "repr s xs"
  shows "\<exists>s'. run (replicate (length xs) CPop) s = Inr (map (\<lambda>x. RPop x True) xs, s') \<and>
              len s' = 0 \<and>
              ((pos s + int (length xs)) mod 128 = 0 \<and> xs \<noteq> [] \<longrightarrow> drained s')"
  using assms
proof (induction xs arbitrary: s)
  case Nil
  then show ?case by (auto simp: repr_def)
next
  case (Cons x xs)
  from repr_Pop[OF Cons.prems] obtain s1 where
    s1: "Pop s = Inr ((x, True), s1)" "pos s1 = (if pos s = 127 then 0 else pos s + 1)"
        "if xs = [] \<and> pos s = 127 then drained s1 else repr s1 xs" by blast
  from Cons.prems have rg: "0 \<le> pos s" "pos s < 128" by (auto simp: repr_def)
  show ?case
  proof (cases "xs = [] \<and> pos s = 127")
    case True
    with s1 have "drained s1" by simp
    with s1(1) True show ?thesis by (simp add: drained_def)
  next
    case False
    with s1 have r1: "repr s1 xs" by simp
    from Cons.IH[OF r1] obtain s' where
      s': "run (replicate (length xs) CPop) s1 = Inr (map (\<lambda>x. RPop x True) xs, s')"
          "len s' = 0"
          "(pos s1 + int (length xs)) mod 128 = 0 \<and> xs \<noteq> [] \<longrightarrow> drained s'" by blast
    have "drained s'" if m: "(pos s + int (length (x # xs))) mod 128 = 0"
    proof -
      have nonempty: "xs \<noteq> []"
      proof
        assume e: "xs = []"
        with m have "(pos s + 1) mod 128 = 0" by simp
        with rg have "pos s = 127" by presburger
        with e False show False by simp
      qed
      have "(pos s1 + int (length xs)) mod 128 = 0"
        using m s1(2) by (auto simp: algebra_simps)
      with nonempty s'(3) show ?thesis by simp
    qed
    with s1(1) s'(1,2) show ?thesis by simp
  qed
qed

lemma run_pops_prefix:
  assumes "repr s (xs @ ys)" "ys \<noteq> []"
  shows "\<exists>s'. run (replicate (length xs) CPop) s = Inr (map (\<lambda>x. RPop x True) xs, s') \<and>
              repr s' ys \<and> pos s' = (pos s + int (length xs)) mod 128"
  using assms
proof (induction xs arbitrary: s)
  case Nil
  then show ?case by (auto simp: repr_def)
next
  case (Cons x xs)
  from Cons.prems(1) have r: "repr s (x # (xs @ ys))" by simp
  from Cons.prems(1) have rg: "0 \<le> pos s" "pos s < 128" by (auto simp: repr_def)
  from repr_Pop[OF r] Cons.prems(2) obtain s1 where
    s1: "Pop s = Inr ((x, True), s1)" "pos s1 = (if pos s = 127 then 0 else pos s + 1)"
        "repr s1 (xs @ ys)" by auto
  from s1(2) rg have p1: "pos s1 = (pos s + 1) mod 128" by auto
  from Cons.IH[OF s1(3) Cons.prems(2)] obtain s' where
    s': "run (replicate (length xs) CPop) s1 = Inr (map (\<lambda>x. RPop x True) xs, s')"
        "repr s' ys" "pos s' = (pos s1 + int (length xs)) mod 128" by blast
  have "pos s' = (pos s + int (length (x # xs))) mod 128"
    unfolding s'(3) p1 by (simp add: mod_simps ac_simps)
  with s1(1) s'(1,2) show ?case by simp
qed

lemma drain_multiple:
  assumes "length vs = 128 * k" "0 < k"
  shows "\<exists>rs s'. run (map CPush vs @ replicate (length vs) CPop) New = Inr (rs, s') \<and> drained s'"
proof -
  from run_pushes[OF repr_New, of vs] obtain s1 where
    s1: "run (map CPush vs) New = Inr (replicate (length vs) RPush, s1)" "repr s1 vs"
        "pos s1 = pos (New :: 'a Queueimpl3)"
    by auto
  have p0: "pos s1 = 0" using s1(3) by (simp add: New_def Init_def zero_def Let_def)
  from assms have ne: "vs \<noteq> []" by auto
  from run_pops[OF s1(2)] obtain s' where
    s': "run (replicate (length vs) CPop) s1 = Inr (map (\<lambda>x. RPop x True) vs, s')"
    "(pos s1 + int (length vs)) mod 128 = 0 \<and> vs \<noteq> [] \<longrightarrow> drained s'"
    by blast
  have "(pos s1 + int (length vs)) mod 128 = 0" using assms(1) p0 by simp
  with s'(2) ne have "drained s'" by simp
  with s1(1) s'(1) show ?thesis by (simp add: run_append)
qed

lemma replicate_128: "replicate 128 x = replicate 127 x @ [x]"
proof -
  have "(128::nat) = Suc 127" by simp
  then have "replicate 128 x = x # replicate 127 x"
    by (simp only: replicate_Suc)
  then show ?thesis by (simp add: replicate_append_same)
qed

lemma last_slot_state:
  "\<exists>rs s. run (replicate 128 (CPush (Some (0::nat))) @ replicate 127 CPop) New = Inr (rs, s) \<and>
          repr s [Some 0] \<and> pos s = 127"
proof -
  let ?xs = "replicate 127 (Some (0::nat))"
  let ?vs = "replicate 128 (Some (0::nat))"
  from run_pushes[OF repr_New, of ?vs] obtain s1 where
    s1: "run (map CPush ?vs) New = Inr (replicate (length ?vs) RPush, s1)"
      "repr s1 ?vs" "pos s1 = pos (New :: nat Queueimpl3)"
    by auto
  have p0: "pos s1 = 0" using s1(3) by (simp add: New_def Init_def zero_def Let_def)
  from s1(2) have "repr s1 (?xs @ [Some 0])" by (simp only: replicate_128)
  from run_pops_prefix[OF this] obtain s where
    s: "run (replicate (length ?xs) CPop) s1 = Inr (map (\<lambda>x. RPop x True) ?xs, s)"
       "repr s [Some 0]" "pos s = (pos s1 + int (length ?xs)) mod 128" by blast
  from s(3) p0 have "pos s = 127" by simp
  moreover from s1(1) s(1)
  have "\<exists>rs. run (replicate 128 (CPush (Some (0::nat))) @ replicate 127 CPop) New = Inr (rs, s)"
    by (simp add: run_append)
  ultimately show ?thesis using s(2) by blast
qed

lemma full_tail_state:
  "\<exists>rs s t. run (replicate 128 (CPush (Some (0::nat)))) New = Inr (rs, s) \<and>
          tail s = Some t \<and> length (Node_v (heap s ! t)) = 128"
proof -
  let ?vs = "replicate 128 (Some (0::nat))"
  from run_pushes[OF repr_New, of ?vs] obtain s where
    s: "run (map CPush ?vs) New = Inr (replicate (length ?vs) RPush, s)"
      "repr s ?vs" "pos s = pos (New :: nat Queueimpl3)"
    by auto
  have p0: "pos s = 0" using s(3) by (simp add: New_def Init_def zero_def Let_def)
  from repr_one_block[OF s(2) p0] obtain t where "tail s = Some t" "length (Node_v (heap s ! t)) = 128"
    by auto
  with s(1) show ?thesis by auto
qed

section \<open>Fixed-width arithmetic\<close>

lemma pow_split: "0 < w \<Longrightarrow> (2::int) ^ w = 2 * 2 ^ (w - 1)"
  by (cases w) simp_all

lemma wrap_id:
  assumes "0 < w" "- (2 ^ (w - 1)) \<le> x" "x < 2 ^ (w - 1)"
  shows "wrap w x = x"
proof -
  have "0 \<le> x + 2 ^ (w - 1)" "x + 2 ^ (w - 1) < 2 ^ w"
    using assms pow_split[OF assms(1)] by simp_all
  then have "(x + 2 ^ (w - 1)) mod 2 ^ w = x + 2 ^ (w - 1)" by simp
  then show ?thesis by (simp add: wrap_def)
qed

lemma wrap_range:
  assumes "0 < w"
  shows "- (2 ^ (w - 1)) \<le> wrap w x \<and> wrap w x < 2 ^ (w - 1)"
proof -
  have "0 \<le> (x + 2 ^ (w - 1)) mod 2 ^ w" "(x + 2 ^ (w - 1)) mod 2 ^ w < 2 ^ w"
    by simp_all
  then show ?thesis using pow_split[OF assms] by (simp add: wrap_def)
qed

lemma wrap_wrap_add: "wrap w (wrap w a + b) = wrap w (a + b)"
proof -
  have "(wrap w a + b + 2 ^ (w - 1)) mod 2 ^ w = ((a + 2 ^ (w - 1)) mod 2 ^ w + b) mod 2 ^ w"
    by (simp add: wrap_def algebra_simps)
  also have "\<dots> = (a + 2 ^ (w - 1) + b) mod 2 ^ w" by (simp add: mod_add_left_eq)
  finally show ?thesis by (simp add: wrap_def algebra_simps)
qed

lemma wrap_idem: "wrap w (wrap w a) = wrap w a"
  using wrap_wrap_add[of w a 0] by simp

lemma wrap_zero: "0 < w \<Longrightarrow> wrap w 0 = 0"
  by (rule wrap_id) simp_all

lemma wrap_overflow: "0 < w \<Longrightarrow> wrap w (maxInt w + 1) = - maxInt w - 1"
proof -
  assume "0 < w"
  then have "(2::int) ^ (w - 1) + 2 ^ (w - 1) = 2 ^ w" by (simp add: pow_split)
  then have "((2::int) ^ (w - 1) + 2 ^ (w - 1)) mod 2 ^ w = 0" by simp
  then show ?thesis by (simp add: wrap_def maxInt_def)
qed

lemma wrap_32_min: "wrap 32 2147483648 = - 2147483648"
  by (simp add: wrap_def)

lemma wrap_32_max: "wrap 32 2147483647 = 2147483647"
  by (simp add: wrap_def)

lemma Push_w_Push:
  "Push_w w x s =
     (case Push x s of Inl e \<Rightarrow> Inl e | Inr s' \<Rightarrow> Inr (s'\<lparr>len := wrap w (len s')\<rparr>))"
  by (simp add: Push_w_def Push_def Let_def split: sum.splits prod.splits)

lemma Pop_w_Pop:
  "Pop_w w s =
     (case Pop s of
        Inl e \<Rightarrow> Inl e
      | Inr (r, s') \<Rightarrow> Inr (r, if len s = 0 then s' else s'\<lparr>len := wrap w (len s')\<rparr>))"
  by (simp add: Pop_w_def Pop_def Let_def split: sum.splits prod.splits)

lemma sok_wf: "sok s \<longleftrightarrow> wf (s\<lparr>len := 0\<rparr>)"
  by (simp add: sok_def wf_def head_ok_def)

lemma wf_sok: "wf s \<Longrightarrow> sok s"
  by (simp add: sok_def wf_def)

lemma sok_len: "sok (s\<lparr>len := k\<rparr>) = sok s"
  by (simp add: sok_def head_ok_def)

lemma Push_len_indep:
  "Push x (s\<lparr>len := k\<rparr>) =
     (case Push x s of Inl e \<Rightarrow> Inl e | Inr s' \<Rightarrow> Inr (s'\<lparr>len := k + 1\<rparr>))"
  by (simp add: Push_def Let_def split: sum.splits prod.splits)

lemma Pop_len_indep:
  assumes "len s \<noteq> 0"
  shows "Pop (s\<lparr>len := 1\<rparr>) =
     (case Pop s of Inl e \<Rightarrow> Inl e | Inr (r, s') \<Rightarrow> Inr (r, s'\<lparr>len := 0\<rparr>))"
  using assms by (simp add: Pop_def Let_def split: sum.splits prod.splits)

lemma sok_Init: "sok s \<Longrightarrow> sok (Init s)"
proof -
  assume "sok s"
  then have "wf (s\<lparr>len := 0\<rparr>)" by (simp add: sok_wf)
  then have "wf (Init (s\<lparr>len := 0\<rparr>))" by (rule wf_Init)
  moreover have "Init (s\<lparr>len := 0\<rparr>) = Init s" by (simp add: Init_def Let_def)
  ultimately show ?thesis by (simp add: wf_sok)
qed

lemma sok_Push:
  assumes "sok s" "Push x s = Inr s'"
  shows "sok s'"
proof -
  from assms(1) have w: "wf (s\<lparr>len := 0\<rparr>)" by (simp add: sok_wf)
  from assms(2) have "Push x (s\<lparr>len := 0\<rparr>) = Inr (s'\<lparr>len := 1\<rparr>)"
    by (simp add: Push_len_indep)
  from wf_Push[OF w this] have "sok (s'\<lparr>len := 1\<rparr>)" by (rule wf_sok)
  then show ?thesis by (simp add: sok_len)
qed

lemma sok_Pop:
  assumes "sok s" "Pop s = Inr (r, s')"
  shows "sok s'"
proof (cases "len s = 0")
  case True
  with assms show ?thesis by (simp add: Pop_empty)
next
  case False
  from assms(1) have "wf (s\<lparr>len := 0\<rparr>)" by (simp add: sok_wf)
  then have w: "wf (s\<lparr>len := 1\<rparr>)" by (simp add: wf_def head_ok_def)
  from assms(2) have "Pop (s\<lparr>len := 1\<rparr>) = Inr (r, s'\<lparr>len := 0\<rparr>)"
    by (simp add: Pop_len_indep[OF False])
  from wf_Pop[OF w this] have "sok (s'\<lparr>len := 0\<rparr>)" by (rule wf_sok)
  then show ?thesis by (simp add: sok_len)
qed

lemma inv_step_w:
  assumes "sok s \<and> wrap w (len s) = len s" "step_w w c s = Inr (r, s')" "0 < w"
  shows "sok s' \<and> wrap w (len s') = len s'"
proof (cases c)
  case CInit
  with assms(2) have s': "s' = Init s" by simp
  have "len (Init s) = 0" by (simp add: Init_def Let_def)
  with assms(1,3) show ?thesis by (simp add: s' sok_Init wrap_zero)
next
  case CLen
  with assms show ?thesis by auto
next
  case CFront
  with assms show ?thesis by (auto split: sum.splits prod.splits)
next
  case (CPush x)
  with assms(2) obtain s1 where p: "Push x s = Inr s1" and s': "s' = s1\<lparr>len := wrap w (len s1)\<rparr>"
    by (auto simp: Push_w_Push split: sum.splits)
  from sok_Push[OF _ p] assms(1) show ?thesis by (simp add: s' sok_len wrap_idem)
next
  case CPop
  with assms(2) obtain x ok s1 where p: "Pop s = Inr ((x, ok), s1)"
    and s': "s' = (if len s = 0 then s1 else s1\<lparr>len := wrap w (len s1)\<rparr>)"
    by (auto simp: Pop_w_Pop split: sum.splits prod.splits)
  from sok_Pop[OF _ p] assms(1) have k: "sok s1" by simp
  show ?thesis
  proof (cases "len s = 0")
    case True
    with p have "s1 = s" by (simp add: Pop_empty)
    with True s' assms(1) show ?thesis by simp
  next
    case False
    with s' k show ?thesis by (simp add: sok_len wrap_idem)
  qed
qed

lemma inv_run_w:
  assumes "sok s \<and> wrap w (len s) = len s" "run_w w cs s = Inr (rs, s')" "0 < w"
  shows "sok s' \<and> wrap w (len s') = len s'"
  using assms(1,2)
proof (induction cs arbitrary: s rs)
  case Nil
  then show ?case by simp
next
  case (Cons c cs)
  from Cons.prems(2) obtain r s1 rs1 where
    st: "step_w w c s = Inr (r, s1)" and rn: "run_w w cs s1 = Inr (rs1, s')"
    by (auto split: sum.splits prod.splits)
  from inv_step_w[OF Cons.prems(1) st assms(3)] have "sok s1 \<and> wrap w (len s1) = len s1" .
  from Cons.IH[OF this rn] show ?case .
qed

lemma inv_New: "0 < w \<Longrightarrow> sok (New :: 'a Queueimpl3) \<and> wrap w (len (New :: 'a Queueimpl3)) = len (New :: 'a Queueimpl3)"
proof -
  assume w: "0 < w"
  have "len (New :: 'a Queueimpl3) = 0" by (simp add: New_def Init_def zero_def Let_def)
  with w wf_sok[OF wf_New] show ?thesis by (simp add: wrap_zero)
qed

lemma step_w_eq:
  assumes "0 < w" "0 \<le> len s" "len s + (if is_push c then 1 else 0) \<le> maxInt w"
  shows "step_w w c s = step c s"
proof (cases c)
  case (CPush x)
  show ?thesis
  proof (cases "Push x s")
    case (Inl e)
    with CPush show ?thesis by (simp add: Push_w_Push)
  next
    case (Inr s1)
    with Push_pos[OF Inr] assms CPush have "wrap w (len s1) = len s1"
      by (intro wrap_id) (simp_all add: maxInt_def)
    with Inr CPush show ?thesis by (simp add: Push_w_Push)
  qed
next
  case CPop
  show ?thesis
  proof (cases "Pop s")
    case (Inl e)
    with CPop show ?thesis by (simp add: Pop_w_Pop)
  next
    case (Inr a)
    then obtain x ok s1 where a: "Pop s = Inr ((x, ok), s1)" by (cases a) auto
    from Pop_len[OF a] assms CPop have b: "- 1 \<le> len s1" "len s1 \<le> maxInt w"
      by (auto split: if_splits)
    have one: "(1::int) \<le> 2 ^ (w - 1)" by simp
    from b(1) one have lo: "- (2 ^ (w - 1)) \<le> len s1" by linarith
    from b(2) have hi: "len s1 < 2 ^ (w - 1)" by (simp add: maxInt_def)
    have "wrap w (len s1) = len s1" by (rule wrap_id[OF assms(1) lo hi])
    with a CPop show ?thesis by (simp add: Pop_w_Pop)
  qed
qed simp_all

lemma step_len_le:
  assumes "step c s = Inr (r, s')" "0 \<le> len s"
  shows "len s' \<le> len s + (if is_push c then 1 else 0)"
proof (cases "c = CInit")
  case True
  with assms show ?thesis by (auto simp: Init_def Let_def)
next
  case False
  from step_len[OF assms(1) False] show ?thesis by simp
qed

lemma run_w_eq:
  assumes "0 < w" "wf s" "len s + int (length (filter is_push cs)) \<le> maxInt w"
  shows "run_w w cs s = run cs s"
  using assms(2,3)
proof (induction cs arbitrary: s)
  case Nil
  then show ?case by simp
next
  case (Cons c cs)
  from Cons.prems(1) have l0: "0 \<le> len s" by (simp add: wf_def)
  from Cons.prems(2) have b: "len s + (if is_push c then 1 else 0) \<le> maxInt w" by auto
  have e: "step_w w c s = step c s" by (rule step_w_eq[OF assms(1) l0 b])
  show ?case
  proof (cases "step c s")
    case (Inl x)
    with e show ?thesis by simp
  next
    case (Inr a)
    then obtain r s1 where st: "step c s = Inr (r, s1)" by (cases a) auto
    from wf_step[OF Cons.prems(1) st] have w1: "wf s1" .
    from step_len_le[OF st l0] Cons.prems(2)
    have "len s1 + int (length (filter is_push cs)) \<le> maxInt w" by (auto split: if_splits)
    from Cons.IH[OF w1 this] e st show ?thesis by simp
  qed
qed



lemma run_w_append:
  "run_w w (cs @ ds) s =
     (case run_w w cs s of
        Inl e \<Rightarrow> Inl e
      | Inr (rs, s1) \<Rightarrow>
          (case run_w w ds s1 of Inl e \<Rightarrow> Inl e | Inr (rs', s2) \<Rightarrow> Inr (rs @ rs', s2)))"
  by (induction cs arbitrary: s) (auto split: sum.splits)

lemma Push_w_total:
  assumes "sok s"
  shows "\<exists>s'. Push_w w x s = Inr s' \<and> head s' = head s \<and> pos s' = pos s \<and>
              len s' = wrap w (len s + 1)"
proof -
  from assms obtain t where t: "tail s = Some t" "t < length (heap s)" by (auto simp: sok_def)
  show ?thesis
    by (cases "128 \<le> length (Node_v (heap s ! t))")
       (simp_all add: Push_w_Push Push_full[OF t] Push_room[OF t])
qed

lemma nil_head_pushes_w:
  assumes "head s = None" "sok s \<and> wrap w (len s) = len s" "0 < w"
  shows "\<exists>rs s'. run_w w (replicate n (CPush x)) s = Inr (rs, s') \<and> head s' = None \<and>
                 len s' = wrap w (len s + int n)"
  using assms(1,2)
proof (induction n arbitrary: s)
  case 0
  then show ?case by simp
next
  case (Suc n)
  from Suc.prems(2) have k: "sok s" by simp
  from Push_w_total[OF k, of w x] obtain s1 where
    p: "Push_w w x s = Inr s1" "head s1 = head s" "len s1 = wrap w (len s + 1)" by blast
  then have st: "step_w w (CPush x) s = Inr (RPush, s1)" by simp
  from inv_step_w[OF Suc.prems(2) st assms(3)] have i1: "sok s1 \<and> wrap w (len s1) = len s1" .
  from p(2) Suc.prems(1) have h1: "head s1 = None" by simp
  from Suc.IH[OF h1 i1] obtain rs s' where
    r: "run_w w (replicate n (CPush x)) s1 = Inr (rs, s')" "head s' = None"
       "len s' = wrap w (len s1 + int n)" by blast
  have "wrap w (wrap w (len s + 1) + int n) = wrap w (len s + 1 + int n)"
    by (rule wrap_wrap_add)
  then have "len s' = wrap w (len s + int (Suc n))"
    unfolding r(3) p(3) by (simp add: algebra_simps)
  with st r(1,2) show ?case by simp
qed

lemma Len_after_drain_pushes:
  assumes "0 < w" "128 \<le> maxInt w"
  shows "Len_after w (replicate 128 (CPush a) @ replicate 128 CPop @ replicate n (CPush b))
           = Some (wrap w (int n))"
proof -
  let ?vs = "replicate 128 a"
  let ?A = "map CPush ?vs @ replicate (length ?vs) CPop"
  have "length ?vs = 128 * 1" by simp
  from drain_multiple[OF this] obtain rs s1 where
    r: "run ?A New = Inr (rs, s1)" and d: "drained s1" by auto
  have "len (New :: 'a Queueimpl3) + int (length (filter is_push ?A)) \<le> maxInt w"
    using assms(2) by (simp add: New_def Init_def zero_def Let_def)
  from run_w_eq[OF assms(1) wf_New this] r have rw: "run_w w ?A New = Inr (rs, s1)" by simp
  from d have h: "head s1 = None" and l: "len s1 = 0" by (simp_all add: drained_def)
  from wf_run[OF wf_New r] l assms(1) have i: "sok s1 \<and> wrap w (len s1) = len s1"
    by (simp add: wf_sok wrap_zero)
  from nil_head_pushes_w[OF h i assms(1), of n b] l obtain rs' s' where
    p: "run_w w (replicate n (CPush b)) s1 = Inr (rs', s')" "len s' = wrap w (int n)" by auto
  from rw p(1) have "run_w w (?A @ replicate n (CPush b)) New = Inr (rs @ rs', s')"
    by (simp only: run_w_append) simp
  then have "run_w w (replicate 128 (CPush a) @ replicate 128 CPop @ replicate n (CPush b)) New
      = Inr (rs @ rs', s')" by simp
  with p(2) show ?thesis by (simp add: Len_after_def Len_def)
qed

lemma replicate_snoc: "replicate n x @ [x] = replicate (Suc n) x"
  by (simp add: replicate_append_same)

lemma repr_last_block:
  assumes "repr s xs" "nat (pos s) + length xs = 128"
  shows "\<exists>t. head s = Some t \<and> tail s = Some t \<and> t < length (heap s) \<and>
             length (Node_v (heap s ! t)) = 128 \<and> Node_n (heap s ! t) = None"
proof -
  from assms(1) obtain h t where ht: "head s = Some h" "tail s = Some t" "chain (heap s) h t"
    and p: "nat (pos s) \<le> length (Node_v (heap s ! h))"
    and c: "drop (nat (pos s)) (contents (heap s) h t) = xs"
    unfolding repr_def by auto
  from ht(3) have le: "h \<le> t" by (simp add: chain_def)
  from contents_prefix[OF le] obtain r where "contents (heap s) h t = Node_v (heap s ! h) @ r"
    by blast
  with p have "nat (pos s) \<le> length (contents (heap s) h t)" by simp
  with c assms(2) have "length (contents (heap s) h t) = 128" by auto
  with chain_length[OF ht(3)]
  have e: "128 * (t - h) + length (Node_v (heap s ! t)) = 128" by simp
  have "h = t"
  proof (rule ccontr)
    assume "h \<noteq> t"
    with ht(3) have lt: "h < t" and pos: "0 < length (Node_v (heap s ! t))"
      by (auto simp: chain_def)
    from lt have "128 \<le> 128 * (t - h)" by simp
    with e pos show False by linarith
  qed
  with e ht show ?thesis by (auto simp: chain_def)
qed

lemma full_tail_state_w:
  "\<exists>rs s t. run_w 64 (replicate 128 (CPush (Some (0::nat)))) New = Inr (rs, s) \<and>
          tail s = Some t \<and> length (Node_v (heap s ! t)) = 128 \<and> len s = 128"
proof -
  let ?vs = "replicate 128 (Some (0::nat))"
  from run_pushes[OF repr_New, of ?vs] obtain s where
    s: "run (map CPush ?vs) New = Inr (replicate (length ?vs) RPush, s)"
      "repr s ?vs" "pos s = pos (New :: nat Queueimpl3)"
    by auto
  have p0: "pos s = 0" using s(3) by (simp add: New_def Init_def zero_def Let_def)
  from repr_one_block[OF s(2) p0] obtain t where
    t: "tail s = Some t" "length (Node_v (heap s ! t)) = 128" by auto
  from s(2) have l: "len s = 128" by (auto simp: repr_def)
  have "len (New :: nat Queueimpl3) + int (length (filter is_push (map CPush ?vs))) \<le> maxInt 64"
    by (simp add: New_def Init_def zero_def Let_def maxInt_def)
  from run_w_eq[OF _ wf_New this] s(1)
  have "run_w 64 (replicate 128 (CPush (Some (0::nat)))) New = Inr (replicate 128 RPush, s)"
    by simp
  with t l show ?thesis by blast
qed

lemma Pop_cursor_effects:
  assumes "run cs New = Inr (rs, s)" "Pop s = Inr ((x, True), s')"
  shows "\<exists>h. head s = Some h \<and> h < length (heap s) \<and>
           (if pos s = 127
            then head s' = Node_n (heap s ! h) \<and> Node_n (heap s' ! h) = None \<and>
                 head s' \<noteq> Some h \<and> pos s' = 0
            else head s' = head s \<and> pos s' = pos s + 1)"
proof -
  from wf_run[OF wf_New assms(1)] have rg: "pos s < 128" by (simp add: wf_def)
  have "(\<exists>xs. repr (New :: 'a Queueimpl3) xs) \<or> head (New :: 'a Queueimpl3) = None"
    using repr_New by blast
  from shape_run[OF this assms(1)] have sh: "(\<exists>xs. repr s xs) \<or> head s = None" .
  from assms(2) show ?thesis
  proof (cases rule: Pop_InrE)
    case empty
    then show ?thesis by simp
  next
    case (last h)
    with rg have p: "pos s = 127" by simp
    from sh last(2) obtain xs where "repr s xs" by auto
    from repr_head_next[OF this last(2)] have "Node_n (heap s ! h) \<noteq> Some h" .
    with last p show ?thesis by simp
  next
    case (inner h)
    then show ?thesis by simp
  qed
qed

section \<open>The claims\<close>

text \<open>
  Claim C1 (FIFO order): for every list of values \<open>vs\<close>, pushing them in order into a
  queue made by \<^verbatim>\<open>New\<close> and then calling \<^verbatim>\<open>Pop\<close> as many times as values were pushed
  runs without panic, and the pops return exactly the values of \<open>vs\<close>, in order, each with
  the flag true; the queue is empty afterwards.
\<close>

theorem fifo_order:
  "\<exists>s'. run (map CPush vs @ replicate (length vs) CPop) New =
          Inr (replicate (length vs) RPush @ map (\<lambda>v. RPop v True) vs, s') \<and> Len s' = 0"
proof -
  from run_pushes[OF repr_New, of vs] obtain s1 where
    s1: "run (map CPush vs) New = Inr (replicate (length vs) RPush, s1)" "repr s1 vs"
    by auto
  from run_pops[OF s1(2)] obtain s' where
    "run (replicate (length vs) CPop) s1 = Inr (map (\<lambda>x. RPop x True) vs, s')" "len s' = 0"
    by blast
  with s1(1) show ?thesis by (simp add: run_append Len_def)
qed

text \<open>
  Claim C2 (totality of Len, Front, Push and Pop on reachable states) does not hold of the
  code. After 128 pushes and 128 pops the head pointer is nil while the tail pointer still
  names the emptied node; the next \<^verbatim>\<open>Push\<close> links a new node behind that tail and leaves the
  head nil. The run below reaches this state without panic; there \<^verbatim>\<open>Len\<close> is 1, and both
  \<^verbatim>\<open>Front\<close> and \<^verbatim>\<open>Pop\<close> panic on the nil head instead of returning the stored value.
\<close>

theorem nonempty_queue_panics:
  "\<exists>rs s. run (replicate 128 (CPush (Some (0::nat))) @ replicate 128 CPop @ [CPush (Some 1)]) New
              = Inr (rs, s) \<and>
          Len s = 1 \<and> Front s = Inl NilDereference \<and> Pop s = Inl NilDereference"
proof -
  let ?vs = "replicate 128 (Some (0::nat))"
  have "length ?vs = 128 * 1" by simp
  from drain_multiple[OF this] obtain rs s1 where
    r: "run (map CPush ?vs @ replicate (length ?vs) CPop) New = Inr (rs, s1)" and d: "drained s1"
    by auto
  from wf_run[OF wf_New r] have w: "wf s1" .
  from drained_Push[OF w d, of "Some 1"] obtain s where
    p: "Push (Some 1) s1 = Inr s" "head s = None" "len s = 1" by blast
  from r p(1) have "run ((map CPush ?vs @ replicate (length ?vs) CPop) @ [CPush (Some 1)]) New
      = Inr (rs @ [RPush], s)"
    by (simp only: run_append) simp
  then have "run (replicate 128 (CPush (Some (0::nat))) @ replicate 128 CPop @ [CPush (Some 1)]) New
      = Inr (rs @ [RPush], s)" by simp
  moreover from p have "Front s = Inl NilDereference" "Pop s = Inl NilDereference"
    by (simp_all add: nil_head_faults)
  ultimately show ?thesis using p(3) by (auto simp: Len_def)
qed




text \<open>
  Claim C4 (empty semantics): in every state with \<^verbatim>\<open>Len() == 0\<close>, reachable or not,
  \<^verbatim>\<open>Front\<close> and \<^verbatim>\<open>Pop\<close> return nil and false, the whole state (store, head, tail, pos, len)
  is the same after the call, and any number \<open>k\<close> of repeated \<^verbatim>\<open>Pop\<close> calls does the same.
\<close>

theorem empty_semantics:
  assumes "Len s = 0"
  shows "Front s = Inr (None, False) \<and> step CFront s = Inr (RFront None False, s) \<and>
         Pop s = Inr ((None, False), s) \<and>
         run (replicate k CPop) s = Inr (replicate k (RPop None False), s)"
proof -
  from assms have l: "len s = 0" by (simp add: Len_def)
  have "run (replicate k CPop) s = Inr (replicate k (RPop None False), s)"
    by (induction k) (simp_all add: Pop_empty[OF l])
  with l show ?thesis by (simp add: Pop_empty Front_empty)
qed

theorem empty_semantics_witness:
  "Len \<lparr>heap = [\<lparr>Node_v = [None :: nat option], Node_n = None\<rparr>], head = Some 0, tail = Some 0,
        pos = 1, len = 0\<rparr> = 0 \<and>
   Pop \<lparr>heap = [\<lparr>Node_v = [None :: nat option], Node_n = None\<rparr>], head = Some 0, tail = Some 0,
        pos = 1, len = 0\<rparr> =
     Inr ((None, False),
       \<lparr>heap = [\<lparr>Node_v = [None], Node_n = None\<rparr>], head = Some 0, tail = Some 0,
        pos = 1, len = 0\<rparr>) \<and>
   run (replicate 3 CPop)
     \<lparr>heap = [\<lparr>Node_v = [None :: nat option], Node_n = None\<rparr>], head = Some 0, tail = Some 0,
      pos = 1, len = 0\<rparr> =
     Inr (replicate 3 (RPop None False),
       \<lparr>heap = [\<lparr>Node_v = [None], Node_n = None\<rparr>], head = Some 0, tail = Some 0,
        pos = 1, len = 0\<rparr>)"
  using empty_semantics[of "\<lparr>heap = [\<lparr>Node_v = [None :: nat option], Node_n = None\<rparr>],
      head = Some 0, tail = Some 0, pos = 1, len = 0\<rparr>" 3]
  by (simp add: Len_def)

text \<open>
  Claim C5 (cursor and head advance of Pop) does not hold of the code where it says that
  the queue retains no reference into the retired block. The 128th \<^verbatim>\<open>Pop\<close> after 128 pushes
  is at \<^verbatim>\<open>pos\<close> 127 of a head node that is also the tail. It sets the head to the node's
  next pointer, which is nil, clears that pointer and resets \<^verbatim>\<open>pos\<close>, as the claim says
  (lemma \<open>Pop_cursor_effects\<close>); but it never writes \<^verbatim>\<open>tail\<close>, which still names the
  retired node, and the next \<^verbatim>\<open>Push\<close> follows it and sets the cleared next pointer again.
\<close>

theorem retired_node_stays_tail:
  "\<exists>rs s x s' h s''.
     run (replicate 128 (CPush (Some (0::nat))) @ replicate 127 CPop) New = Inr (rs, s) \<and>
     head s = Some h \<and> pos s = 127 \<and> Pop s = Inr ((x, True), s') \<and>
     head s' = None \<and> Node_n (heap s' ! h) = None \<and> tail s' = Some h \<and>
     Push (Some 1) s' = Inr s'' \<and> Node_n (heap s'' ! h) = Some (length (heap s'))"
proof -
  from last_slot_state obtain rs s where
    r: "run (replicate 128 (CPush (Some (0::nat))) @ replicate 127 CPop) New = Inr (rs, s)"
    and s: "repr s [Some 0]" "pos s = 127" by blast
  from s have "nat (pos s) + length [Some (0::nat)] = 128" by simp
  from repr_last_block[OF s(1) this] obtain t where
    t: "head s = Some t" "tail s = Some t" "t < length (heap s)"
       "length (Node_v (heap s ! t)) = 128" "Node_n (heap s ! t) = None" by blast
  from s(1) have "len s = 1" by (auto simp: repr_def)
  then have ne: "len s \<noteq> 0" by simp
  let ?s' = "s\<lparr>heap := (heap s)[t := (heap s ! t)\<lparr>Node_v := (Node_v (heap s ! t))[nat (pos s) := None],
                                                 Node_n := None\<rparr>],
             head := Node_n (heap s ! t), pos := 0, len := len s - 1\<rparr>"
  have p: "Pop s = Inr ((Node_v (heap s ! t) ! nat (pos s), True), ?s')"
    using s(2) t(4) by (intro Pop_last[OF ne t(1) t(3)]) simp_all
  have t': "tail ?s' = Some t" "t < length (heap ?s')" "128 \<le> length (Node_v (heap ?s' ! t))"
    using t by simp_all
  let ?s'' = "?s'\<lparr>heap := (heap ?s')[t := (heap ?s' ! t)\<lparr>Node_n := Some (length (heap ?s'))\<rparr>]
                                   @ [\<lparr>Node_v = [Some 1], Node_n = None\<rparr>],
                          tail := Some (length (heap ?s')), len := len ?s' + 1\<rparr>"
  have q: "Push (Some 1) ?s' = Inr ?s''" by (rule Push_full[OF t'])
  have 1: "head ?s' = None" "Node_n (heap ?s' ! t) = None" using t by simp_all
  have 2: "Node_n (heap ?s'' ! t) = Some (length (heap ?s'))"
    using t(3) by (simp add: nth_append)
  from r t(1) s(2) p 1 t'(1) q 2 show ?thesis by blast
qed

text \<open>
  Claim C6 (allocation step of Push) as stated does not hold of the code where it says that
  the count increases by exactly one in every case: with a 32-bit \<^verbatim>\<open>int\<close>, after 128
  pushes, 128 pops and 2^31 - 1 pushes \<^verbatim>\<open>Len\<close> is 2^31 - 1, and one more \<^verbatim>\<open>Push\<close>
  makes it -2^31.
\<close>

theorem push_wraps_count:
  "Len_after 32 (replicate 128 (CPush (Some (0::nat))) @ replicate 128 CPop @
                 replicate 2147483647 (CPush (Some 0))) = Some 2147483647 \<and>
   Len_after 32 (replicate 128 (CPush (Some (0::nat))) @ replicate 128 CPop @
                 replicate 2147483647 (CPush (Some 0)) @ [CPush (Some 0)]) = Some (- 2147483648)"
proof -
  have w: "(0::nat) < 32" "128 \<le> maxInt 32" by (simp_all add: maxInt_def)
  have e: "replicate 2147483647 (CPush (Some (0::nat))) @ [CPush (Some 0)] =
           replicate 2147483648 (CPush (Some 0))"
    by (simp only: replicate_snoc) simp
  from Len_after_drain_pushes[OF w, of "Some 0" 2147483647 "Some 0"]
       Len_after_drain_pushes[OF w, of "Some 0" 2147483648 "Some 0"]
  show ?thesis by (simp only: e) (simp add: wrap_32_min wrap_32_max)
qed

text \<open>
  Claim C6, amended. In every state reached from \<^verbatim>\<open>New\<close> on an \<^verbatim>\<open>int\<close> of width \<open>w\<close>,
  \<^verbatim>\<open>Push x\<close> completes. If the tail node holds 128 values, one node is allocated, the old
  tail's next pointer and the tail pointer name it, and it holds exactly \<open>x\<close>; otherwise
  \<open>x\<close> is appended to the slice of the tail node. In both cases \<^verbatim>\<open>len\<close> becomes \<^verbatim>\<open>len + 1\<close>
  reduced to width \<open>w\<close>, which is \<^verbatim>\<open>len + 1\<close> below \<open>maxInt w\<close> and the least \<^verbatim>\<open>int\<close> at
  \<open>maxInt w\<close>; head and \<^verbatim>\<open>pos\<close> are unchanged, and every slot that held a value before holds
  the same value at the same index of the same node.
\<close>

theorem push_step_int:
  assumes "run_w w cs New = Inr (rs, s)" "0 < w"
  shows "\<exists>t s'. tail s = Some t \<and> t < length (heap s) \<and> Push_w w x s = Inr s' \<and>
           len s' = wrap w (len s + 1) \<and>
           (len s < maxInt w \<longrightarrow> len s' = len s + 1) \<and>
           (len s = maxInt w \<longrightarrow> len s' = - maxInt w - 1) \<and>
           head s' = head s \<and> pos s' = pos s \<and>
           (if length (Node_v (heap s ! t)) = 128
            then length (heap s') = Suc (length (heap s)) \<and>
                 Node_n (heap s' ! t) = Some (length (heap s)) \<and>
                 tail s' = Some (length (heap s)) \<and>
                 heap s' ! length (heap s) = \<lparr>Node_v = [x], Node_n = None\<rparr>
            else length (heap s') = length (heap s) \<and> tail s' = tail s \<and>
                 Node_v (heap s' ! t) = Node_v (heap s ! t) @ [x]) \<and>
           (\<forall>a < length (heap s). \<forall>i < length (Node_v (heap s ! a)).
              Node_v (heap s' ! a) ! i = Node_v (heap s ! a) ! i)"
proof -
  from inv_run_w[OF inv_New[OF assms(2)] assms(1) assms(2)]
  have k: "sok s" and wl: "wrap w (len s) = len s" by simp_all
  from k obtain t where t: "tail s = Some t" "t < length (heap s)" by (auto simp: sok_def)
  from k have sz: "sizes_ok (heap s)" by (simp add: sok_def)
  from wrap_range[OF assms(2), of "len s"] wl
  have lo: "- (2 ^ (w - 1)) \<le> len s" by simp
  have a: "len s < maxInt w \<longrightarrow> wrap w (len s + 1) = len s + 1"
  proof
    assume "len s < maxInt w"
    then have "len s + 1 < 2 ^ (w - 1)" by (simp add: maxInt_def)
    moreover from lo have "- (2 ^ (w - 1)) \<le> len s + 1" by simp
    ultimately show "wrap w (len s + 1) = len s + 1" by (intro wrap_id[OF assms(2)])
  qed
  have b: "len s = maxInt w \<longrightarrow> wrap w (len s + 1) = - maxInt w - 1"
    using wrap_overflow[OF assms(2)] by simp
  show ?thesis
  proof (cases "128 \<le> length (Node_v (heap s ! t))")
    case True
    with sizes_ok_nth[OF sz t(2)] have full: "length (Node_v (heap s ! t)) = 128" by simp
    from Push_full[OF t True, of x] t full a b show ?thesis
      by (auto simp: Push_w_Push nth_append nth_list_update)
  next
    case False
    then have lt: "length (Node_v (heap s ! t)) < 128" by simp
    from Push_room[OF t lt, of x] t lt a b show ?thesis
      by (auto simp: Push_w_Push nth_append nth_list_update)
  qed
qed

theorem push_step_int_witness:
  "\<exists>rs s t s'.
     run_w 64 (replicate 128 (CPush (Some (0::nat)))) New = Inr (rs, s) \<and>
     tail s = Some t \<and> length (Node_v (heap s ! t)) = 128 \<and> len s = 128 \<and>
     Push_w 64 (Some 1) s = Inr s' \<and> len s' = 129 \<and>
     Node_n (heap s' ! t) = Some (length (heap s)) \<and> tail s' = Some (length (heap s)) \<and>
     heap s' ! length (heap s) = \<lparr>Node_v = [Some 1], Node_n = None\<rparr>"
proof -
  from full_tail_state_w obtain rs s t where
    r: "run_w 64 (replicate 128 (CPush (Some (0::nat)))) New = Inr (rs, s)"
    and t: "tail s = Some t" "length (Node_v (heap s ! t)) = 128" and l: "len s = 128" by blast
  have b: "len s < maxInt 64" by (simp add: l maxInt_def)
  from push_step_int[OF r, of "Some 1"] t b obtain s' where
    "Push_w 64 (Some 1) s = Inr s'" "len s' = len s + 1"
    "Node_n (heap s' ! t) = Some (length (heap s))" "tail s' = Some (length (heap s))"
    "heap s' ! length (heap s) = \<lparr>Node_v = [Some 1], Node_n = None\<rparr>"
    by auto
  with r t l show ?thesis by auto
qed

text \<open>
  Claim C7 (range of the read cursor): in every state reached from \<^verbatim>\<open>New\<close> by any calls,
  \<open>0 \<le> pos < 128\<close>. Of the calls made there, \<^verbatim>\<open>Init\<close> sets \<^verbatim>\<open>pos\<close> to 0; a \<^verbatim>\<open>Pop\<close> that
  returns true either increments a \<^verbatim>\<open>pos\<close> below 127 by one or resets \<^verbatim>\<open>pos\<close> from 127 to 0;
  a \<^verbatim>\<open>Pop\<close> that returns false, \<^verbatim>\<open>Len\<close>, \<^verbatim>\<open>Front\<close> and \<^verbatim>\<open>Push\<close> leave it as it is.
\<close>

theorem read_cursor_range:
  assumes "run cs New = Inr (rs, s)"
  shows "0 \<le> pos s \<and> pos s < 128 \<and>
         (\<forall>c r s'. step c s = Inr (r, s') \<longrightarrow>
            (case c of
               CInit \<Rightarrow> pos s' = 0
             | CPop \<Rightarrow>
                 if is_popped r
                 then (pos s < 127 \<and> pos s' = pos s + 1) \<or> (pos s = 127 \<and> pos s' = 0)
                 else pos s' = pos s
             | _ \<Rightarrow> pos s' = pos s))"
proof -
  from wf_run[OF wf_New assms(1)] have rg: "0 \<le> pos s" "pos s < 128" by (simp_all add: wf_def)
  have "case c of
               CInit \<Rightarrow> pos s' = 0
             | CPop \<Rightarrow>
                 if is_popped r
                 then (pos s < 127 \<and> pos s' = pos s + 1) \<or> (pos s = 127 \<and> pos s' = 0)
                 else pos s' = pos s
             | _ \<Rightarrow> pos s' = pos s" if st: "step c s = Inr (r, s')" for c r s'
  proof (cases c)
    case CInit
    with st show ?thesis by (auto simp: Init_def Let_def)
  next
    case CLen
    with st show ?thesis by auto
  next
    case CFront
    with st show ?thesis by (auto split: sum.splits prod.splits)
  next
    case (CPush x)
    with st show ?thesis by (auto split: sum.splits dest: Push_pos)
  next
    case CPop
    with st obtain x ok where p: "Pop s = Inr ((x, ok), s')" and r: "r = RPop x ok"
      by (auto split: sum.splits prod.splits)
    from p show ?thesis
    proof (cases rule: Pop_InrE)
      case empty
      with CPop r show ?thesis by simp
    next
      case (last h)
      with rg have "pos s = 127" by simp
      with last CPop r show ?thesis by simp
    next
      case (inner h)
      with CPop r show ?thesis by simp
    qed
  qed
  with rg show ?thesis by blast
qed

theorem read_cursor_range_witness:
  "\<exists>rs s r s'.
     run (replicate 128 (CPush (Some (0::nat))) @ replicate 127 CPop) New = Inr (rs, s) \<and>
     pos s = 127 \<and> step CPop s = Inr (r, s') \<and> is_popped r \<and> pos s' = 0"
proof -
  from last_slot_state obtain rs s where
    r: "run (replicate 128 (CPush (Some (0::nat))) @ replicate 127 CPop) New = Inr (rs, s)"
    and s: "repr s [Some 0]" "pos s = 127" by blast
  from repr_Pop[OF s(1)] obtain s' where p: "Pop s = Inr ((Some 0, True), s')" by blast
  then have st: "step CPop s = Inr (RPop (Some 0) True, s')" by simp
  from read_cursor_range[OF r, THEN conjunct2, THEN conjunct2, rule_format, OF st] s(2)
  have "pos s' = 0" by simp
  with r s(2) st show ?thesis by force
qed

text \<open>
  Claim C8 (reference release on Pop): for every \<^verbatim>\<open>Pop\<close> that returns true in a state
  reached from \<^verbatim>\<open>New\<close>, the value returned is the one in slot \<^verbatim>\<open>pos\<close> of the head node, and
  afterwards that slot is nil. When \<^verbatim>\<open>pos\<close> was 127, so that the node leaves the head, the
  node has 128 slots and every one of them is nil.
\<close>

theorem pop_releases_slot:
  assumes "run cs New = Inr (rs, s)" "Pop s = Inr ((x, True), s')"
  shows "\<exists>h. head s = Some h \<and> h < length (heap s) \<and>
           nat (pos s) < length (Node_v (heap s ! h)) \<and>
           x = Node_v (heap s ! h) ! nat (pos s) \<and>
           Node_v (heap s' ! h) ! nat (pos s) = None \<and>
           (pos s = 127 \<longrightarrow>
              head s' = Node_n (heap s ! h) \<and> length (Node_v (heap s' ! h)) = 128 \<and>
              (\<forall>i < 128. Node_v (heap s' ! h) ! i = None))"
proof -
  from wf_run[OF wf_New assms(1)] have w: "wf s" .
  then have rg: "pos s < 128" and sz: "sizes_ok (heap s)" and hd: "head_ok s"
    by (simp_all add: wf_def)
  from assms(2) show ?thesis
  proof (cases rule: Pop_InrE)
    case empty
    then show ?thesis by simp
  next
    case (last h)
    with rg have p: "pos s = 127" by simp
    from sizes_ok_nth[OF sz last(3)] last(5) p
    have full: "length (Node_v (heap s ! h)) = 128" by simp
    from hd last(2) have nil: "\<forall>i < nat (pos s). Node_v (heap s ! h) ! i = None"
      by (simp add: head_ok_def)
    have "Node_v (heap s' ! h) ! i = None" if "i < 128" for i
    proof (cases "i = nat (pos s)")
      case True
      with last show ?thesis by simp
    next
      case False
      with that p have "i < nat (pos s)" by simp
      with nil last False show ?thesis by simp
    qed
    then have all: "\<forall>i < 128. Node_v (heap s' ! h) ! i = None" by blast
    have "Node_v (heap s' ! h) ! nat (pos s) = None"
      and "head s' = Node_n (heap s ! h)" and "length (Node_v (heap s' ! h)) = 128"
      using last full by simp_all
    with last(2,3,5,8) all show ?thesis by blast
  next
    case (inner h)
    then show ?thesis by simp
  qed
qed

theorem pop_releases_slot_witness:
  "\<exists>rs s x s' h.
     run (replicate 128 (CPush (Some (0::nat))) @ replicate 127 CPop) New = Inr (rs, s) \<and>
     Pop s = Inr ((x, True), s') \<and> pos s = 127 \<and> head s = Some h \<and>
     x = Node_v (heap s ! h) ! 127 \<and> length (Node_v (heap s' ! h)) = 128 \<and>
     (\<forall>i < 128. Node_v (heap s' ! h) ! i = None)"
proof -
  from last_slot_state obtain rs s where
    r: "run (replicate 128 (CPush (Some (0::nat))) @ replicate 127 CPop) New = Inr (rs, s)"
    and s: "repr s [Some 0]" "pos s = 127" by blast
  from repr_Pop[OF s(1)] obtain s' where p: "Pop s = Inr ((Some 0, True), s')" by blast
  from pop_releases_slot[OF r p] s(2) obtain h where
    "head s = Some h" "Some 0 = Node_v (heap s ! h) ! 127"
    "length (Node_v (heap s' ! h)) = 128" "\<forall>i < 128. Node_v (heap s' ! h) ! i = None"
    by auto
  with r p s(2) show ?thesis by blast
qed

text \<open>
  Claim C9 (empty queue with a nil head): pushing a positive multiple of 128 values into a
  queue made by \<^verbatim>\<open>New\<close> and popping as many reaches, without panic, a state whose head
  pointer is nil and whose length is 0; there \<^verbatim>\<open>Front\<close> and \<^verbatim>\<open>Pop\<close> return nil and false
  and \<^verbatim>\<open>Pop\<close> leaves the state as it is. In every state of length 0, whatever its head,
  both return nil and false: the test of \<^verbatim>\<open>len\<close> comes before the head is followed.
\<close>

theorem empty_with_nil_head:
  assumes "length vs = 128 * k" "0 < k"
  shows "(\<exists>rs s. run (map CPush vs @ replicate (length vs) CPop) New = Inr (rs, s) \<and>
            head s = None \<and> Len s = 0 \<and>
            Front s = Inr (None, False) \<and> Pop s = Inr ((None, False), s)) \<and>
         (\<forall>q. Len q = 0 \<longrightarrow> Front q = Inr (None, False) \<and> Pop q = Inr ((None, False), q))"
proof -
  from drain_multiple[OF assms] obtain rs s where
    r: "run (map CPush vs @ replicate (length vs) CPop) New = Inr (rs, s)" and d: "drained s"
    by blast
  from d have "head s = None" "len s = 0" by (simp_all add: drained_def)
  with r have "\<exists>rs s. run (map CPush vs @ replicate (length vs) CPop) New = Inr (rs, s) \<and>
            head s = None \<and> Len s = 0 \<and>
            Front s = Inr (None, False) \<and> Pop s = Inr ((None, False), s)"
    by (auto simp: Len_def Pop_empty Front_empty)
  then show ?thesis by (simp add: Len_def Pop_empty Front_empty)
qed

theorem empty_with_nil_head_witness:
  "\<exists>rs s. run (replicate 128 (CPush (None :: nat option)) @ replicate 128 CPop) New = Inr (rs, s) \<and>
          head s = None \<and> Len s = 0 \<and>
          Front s = Inr (None, False) \<and> Pop s = Inr ((None, False), s)"
proof -
  have "length (replicate 128 (None :: nat option)) = 128 * 1" and "0 < (1::nat)" by simp_all
  from empty_with_nil_head[OF this, THEN conjunct1] show ?thesis by simp
qed

text \<open>
  Claim C10 (block size): in every state reached from \<^verbatim>\<open>New\<close>, every node of the store
  holds at most 128 values. When the tail node holds 128, \<^verbatim>\<open>Push\<close> leaves its slice as it
  is and puts the value into a newly allocated node, which becomes the tail. Whatever calls
  follow, a node that holds 128 values holds 128 values afterwards.
\<close>

theorem block_size_invariant:
  assumes "run cs New = Inr (rs, s)"
  shows "(\<forall>a < length (heap s). length (Node_v (heap s ! a)) \<le> 128) \<and>
         (\<forall>x t. tail s = Some t \<and> length (Node_v (heap s ! t)) = 128 \<longrightarrow>
            (\<exists>s'. Push x s = Inr s' \<and> tail s' = Some (length (heap s)) \<and>
                   Node_v (heap s' ! t) = Node_v (heap s ! t) \<and>
                   heap s' ! length (heap s) = \<lparr>Node_v = [x], Node_n = None\<rparr>)) \<and>
         (\<forall>ds rs' s' a. run ds s = Inr (rs', s') \<and> a < length (heap s) \<and>
              length (Node_v (heap s ! a)) = 128 \<longrightarrow>
            a < length (heap s') \<and> length (Node_v (heap s' ! a)) = 128)"
proof (intro conjI allI impI)
  from wf_run[OF wf_New assms(1)] have w: "wf s" .
  then have sz: "sizes_ok (heap s)" by (simp add: wf_def)
  {
    fix a assume "a < length (heap s)"
    then show "length (Node_v (heap s ! a)) \<le> 128" by (rule sizes_ok_nth[OF sz])
  next
    fix x t assume a: "tail s = Some t \<and> length (Node_v (heap s ! t)) = 128"
    from w a have t: "tail s = Some t" "t < length (heap s)" by (auto simp: wf_def)
    from a have full: "128 \<le> length (Node_v (heap s ! t))" by simp
    from Push_full[OF t full, of x] t
    show "\<exists>s'. Push x s = Inr s' \<and> tail s' = Some (length (heap s)) \<and>
                   Node_v (heap s' ! t) = Node_v (heap s ! t) \<and>
                   heap s' ! length (heap s) = \<lparr>Node_v = [x], Node_n = None\<rparr>"
      by (auto simp: nth_append)
  next
    fix ds rs' s' a
    assume a: "run ds s = Inr (rs', s') \<and> a < length (heap s) \<and>
              length (Node_v (heap s ! a)) = 128"
    then have r: "run ds s = Inr (rs', s')" and al: "a < length (heap s)"
      and full: "length (Node_v (heap s ! a)) = 128" by simp_all
    from run_heap_mono[OF r al] full
    have 1: "a < length (heap s')" "128 \<le> length (Node_v (heap s' ! a))" by simp_all
    from wf_run[OF w r] have "sizes_ok (heap s')" by (simp add: wf_def)
    from sizes_ok_nth[OF this 1(1)] 1 show "a < length (heap s')" "length (Node_v (heap s' ! a)) = 128"
      by simp_all
  }
qed

theorem block_size_invariant_witness:
  "\<exists>rs s t s'.
     run (replicate 128 (CPush (Some (0::nat)))) New = Inr (rs, s) \<and>
     tail s = Some t \<and> length (Node_v (heap s ! t)) = 128 \<and>
     Push (Some 1) s = Inr s' \<and> tail s' = Some (length (heap s)) \<and>
     Node_v (heap s' ! t) = Node_v (heap s ! t) \<and>
     heap s' ! length (heap s) = \<lparr>Node_v = [Some 1], Node_n = None\<rparr>"
proof -
  from full_tail_state obtain rs s t where
    r: "run (replicate 128 (CPush (Some (0::nat)))) New = Inr (rs, s)"
    and t: "tail s = Some t" "length (Node_v (heap s ! t)) = 128" by blast
  from block_size_invariant[OF r] t obtain s' where
    "Push (Some 1) s = Inr s'" "tail s' = Some (length (heap s))"
    "Node_v (heap s' ! t) = Node_v (heap s ! t)"
    "heap s' ! length (heap s) = \<lparr>Node_v = [Some 1], Node_n = None\<rparr>"
    by blast
  with r t show ?thesis by blast
qed

end
